theory Spec2Isabelle
  imports Complex_Main "HOL-Library.Sublist"
begin

section \<open>Ambulance signal control: junction graph, route optimizer, signal arbiter\<close>

text \<open>
  A shallow embedding of \<^verbatim>\<open>ambulance_signal_control.py\<close>. Python floats are
  modelled as \<^typ>\<open>real\<close> (exact arithmetic, no rounding), Python strings as
  \<^typ>\<open>string\<close>, dictionaries as maps, exceptions as the left summand of a sum.
\<close>

subsection \<open>Configuration\<close>

datatype error = KeyError | IndexError | ValueError

definition AMBULANCE_IDS :: "string list" where
  "AMBULANCE_IDS = [''ambulance_1'', ''ambulance_2'']"

definition JUNCTIONS :: "string list" where
  "JUNCTIONS = [''J1'', ''J2'', ''J3'', ''J4'', ''J5'', ''J6'']"

definition AMBULANCE_PRIORITIES :: "string \<rightharpoonup> string" where
  "AMBULANCE_PRIORITIES =
     [''ambulance_2'' \<mapsto> ''CODE_BLACK'', ''ambulance_1'' \<mapsto> ''CODE_RED'']"

definition PHEROMONE_DECAY :: real where
  "PHEROMONE_DECAY = 95 / 100"

definition PHEROMONE_DEPOSIT :: real where
  "PHEROMONE_DEPOSIT = 1"

subsection \<open>Junctions and their pheromone tables\<close>

text \<open>
  \<^verbatim>\<open>class Junction\<close>: the field \<^verbatim>\<open>id\<close> is named \<open>id_junction\<close> here.
  \<^verbatim>\<open>traffic_level\<close> is only ever assigned \<open>0\<close> (the constructor) or a sum of
  vehicle counts (\<^verbatim>\<open>update_traffic_level\<close>), so it is a natural number.
\<close>

record Junction =
  id_junction :: string
  pheromone :: "string \<rightharpoonup> real"
  traffic_level :: nat

type_synonym junction_table = "string \<rightharpoonup> Junction"

text \<open>
  \<^verbatim>\<open>Junction.__init__\<close>: an empty pheromone table and traffic level 0.
\<close>

definition new_Junction :: "string \<Rightarrow> Junction" where
  "new_Junction i = \<lparr>id_junction = i, pheromone = Map.empty, traffic_level = 0\<rparr>"

text \<open>
  \<^verbatim>\<open>Junction.update_pheromone\<close>: an absent entry is first stored as \<open>0\<close>, then
  the entry is replaced by its value times the decay plus \<open>value\<close>.
\<close>

definition update_pheromone :: "Junction \<Rightarrow> string \<Rightarrow> real \<Rightarrow> Junction" where
  "update_pheromone self next_junction v =
     (let ph = (if next_junction \<notin> dom (pheromone self)
                then (pheromone self)(next_junction \<mapsto> 0) else pheromone self)
      in case ph next_junction of
           None \<Rightarrow> self\<lparr>pheromone := ph\<rparr>
         | Some old \<Rightarrow> self\<lparr>pheromone := ph(next_junction \<mapsto> old * PHEROMONE_DECAY + v)\<rparr>)"

text \<open>
  \<^verbatim>\<open>calculate_route_score\<close>: a missing \<^verbatim>\<open>junctions[...]\<close> key raises KeyError;
  an absent pheromone entry is written as \<open>1.0\<close> before it is read. The function
  returns the score together with the junction table as it leaves it.
\<close>

definition calculate_route_score ::
  "string \<Rightarrow> string \<Rightarrow> junction_table \<Rightarrow> error + (real \<times> junction_table)" where
  "calculate_route_score from_junction to_junction junctions =
     (case junctions from_junction of
        None \<Rightarrow> Inl KeyError
      | Some jf \<Rightarrow>
          let jf' = (if to_junction \<notin> dom (pheromone jf)
                     then jf\<lparr>pheromone := (pheromone jf)(to_junction \<mapsto> 1)\<rparr> else jf);
              junctions' = junctions(from_junction \<mapsto> jf')
          in (case pheromone jf' to_junction of
                None \<Rightarrow> Inl KeyError
              | Some ph \<Rightarrow>
                  (case junctions' to_junction of
                     None \<Rightarrow> Inl KeyError
                   | Some jt \<Rightarrow>
                       (let traffic = traffic_level jt + 1
                        in Inr (ph ^ 2 / real traffic, junctions')))))"

text \<open>The value an entry of a pheromone table is read as by \<open>update_pheromone\<close>.\<close>

definition stored_or_zero :: "Junction \<Rightarrow> string \<Rightarrow> real" where
  "stored_or_zero self b = (case pheromone self b of None \<Rightarrow> 0 | Some old \<Rightarrow> old)"

subsection \<open>Strings and lists as Python reads them\<close>

definition endswith :: "string \<Rightarrow> string \<Rightarrow> bool" where
  "endswith s suf = suffix suf s"

definition startswith :: "string \<Rightarrow> string \<Rightarrow> bool" where
  "startswith s pre = prefix pre s"

text \<open>\<^verbatim>\<open>s.split('_')[0]\<close>: the part of \<open>s\<close> before its first underscore.\<close>

definition split_underscore_0 :: "string \<Rightarrow> string" where
  "split_underscore_0 s = takeWhile (\<lambda>c. c \<noteq> CHR ''_'') s"

text \<open>\<^verbatim>\<open>e[:-2] if e.endswith("_0") else e\<close>.\<close>

definition strip_lane :: "string \<Rightarrow> string" where
  "strip_lane e = (if endswith e ''_0'' then take (length e - 2) e else e)"

text \<open>Truth value of an optional string: \<^verbatim>\<open>None\<close> and \<^verbatim>\<open>""\<close> are false.\<close>

definition truthy :: "string option \<Rightarrow> bool" where
  "truthy v = (case v of None \<Rightarrow> False | Some s \<Rightarrow> s \<noteq> [])"

text \<open>
  \<^verbatim>\<open>xs[i]\<close>: an index from \<open>-len(xs)\<close> to \<open>-1\<close> counts from the end, and
  an index outside \<open>-len(xs) .. len(xs) - 1\<close> raises IndexError.
\<close>

definition py_get :: "'a list \<Rightarrow> int \<Rightarrow> error + 'a" where
  "py_get xs i =
     (if 0 \<le> i \<and> i < int (length xs) then Inr (xs ! nat i)
      else if i < 0 \<and> - int (length xs) \<le> i then Inr (xs ! nat (int (length xs) + i))
      else Inl IndexError)"

text \<open>\<^verbatim>\<open>xs.index(x)\<close>, used only where \<open>x\<close> is in \<open>xs\<close>.\<close>

fun list_index :: "'a list \<Rightarrow> 'a \<Rightarrow> nat" where
  "list_index [] x = 0"
| "list_index (y # ys) x = (if y = x then 0 else Suc (list_index ys x))"

subsection \<open>The simulator, as far as the program queries and commands it\<close>

text \<open>
  The answers of TraCI during one tick. A controlled link is a triple
  (incoming lane, outgoing lane, via lane); \<open>getControlledLinks\<close> gives, per signal
  index, a list of them. \<open>state_commands\<close> records every
  \<^verbatim>\<open>setRedYellowGreenState\<close> call the simulator has received.
\<close>

type_synonym link = "string \<times> string \<times> string"

record traci =
  getIDList :: "string list"
  getRoadID :: "string \<Rightarrow> string"
  getRoute :: "string \<Rightarrow> string list"
  getRouteIndex :: "string \<Rightarrow> int"
  getControlledLinks :: "string \<Rightarrow> link list list"
  getRedYellowGreenState :: "string \<Rightarrow> string"
  state_commands :: "(string \<times> string) list"

definition setRedYellowGreenState :: "traci \<Rightarrow> string \<Rightarrow> string \<Rightarrow> traci" where
  "setRedYellowGreenState env tls st =
     env\<lparr>getRedYellowGreenState := (getRedYellowGreenState env)(tls := st),
         state_commands := state_commands env @ [(tls, st)]\<rparr>"

subsection \<open>Route optimizer\<close>

text \<open>
  \<^verbatim>\<open>get_next_junctions\<close> collects the junctions in a Python set and returns
  \<^verbatim>\<open>list(next_junctions)\<close>: the found junctions, each once, in an order Python
  does not specify. The model lists them in the order found; nothing proved below
  depends on that order.
\<close>

definition get_next_junctions :: "traci \<Rightarrow> string \<Rightarrow> string list" where
  "get_next_junctions env current_junction =
     remdups (concat (map
       (\<lambda>links. case links of
           [] \<Rightarrow> []
         | (from_edge, to_edge, via) # _ \<Rightarrow>
             filter (\<lambda>junction. junction \<noteq> current_junction \<and> endswith to_edge junction)
               JUNCTIONS)
       (getControlledLinks env current_junction)))"

text \<open>
  The list comprehension of scores: \<open>calculate_route_score\<close> is called for each
  candidate in turn, each call seeing the table the previous one left.
\<close>

fun calculate_scores ::
  "string \<Rightarrow> string list \<Rightarrow> junction_table \<Rightarrow> error + (real list \<times> junction_table)" where
  "calculate_scores current [] junctions = Inr ([], junctions)"
| "calculate_scores current (next_j # rest) junctions =
     (case calculate_route_score current next_j junctions of
        Inl e \<Rightarrow> Inl e
      | Inr (s, junctions') \<Rightarrow>
          (case calculate_scores current rest junctions' of
             Inl e \<Rightarrow> Inl e
           | Inr (ss, junctions'') \<Rightarrow> Inr (s # ss, junctions'')))"

text \<open>
  The selection weights. The loop computes them only for a non-empty list of scores
  (it has left before when there is no candidate), so \<^verbatim>\<open>1/len(scores)\<close> never
  divides by zero.
\<close>

definition probabilities_of :: "real list \<Rightarrow> real list" where
  "probabilities_of scores =
     (let total_score = sum_list scores
      in if total_score = 0 then replicate (length scores) (1 / real (length scores))
         else map (\<lambda>s. s / total_score) scores)"

text \<open>
  \<^verbatim>\<open>random.choices(population, weights)[0]\<close> of the standard library, given the
  number \<open>u\<close> that \<^verbatim>\<open>random()\<close> returns: the running sums of the weights are
  searched by \<^verbatim>\<open>bisect\<close> (bisect right, between \<open>0\<close> and \<open>n - 1\<close>) for
  \<open>u * total\<close>. A weight list of another length than the population, or a total that
  is not positive, raises ValueError.
\<close>

fun accumulate :: "real \<Rightarrow> real list \<Rightarrow> real list" where
  "accumulate acc [] = []"
| "accumulate acc (w # ws) = (acc + w) # accumulate (acc + w) ws"

function bisect :: "real list \<Rightarrow> real \<Rightarrow> nat \<Rightarrow> nat \<Rightarrow> nat" where
  "bisect a x lo hi =
     (if lo < hi
      then let mid = (lo + hi) div 2
           in if x < a ! mid then bisect a x lo mid else bisect a x (mid + 1) hi
      else lo)"
  by pat_completeness auto
termination
  by (relation "measure (\<lambda>(a, x, lo, hi). hi - lo)") auto

declare bisect.simps [simp del]

definition random_choices :: "'a list \<Rightarrow> real list \<Rightarrow> real \<Rightarrow> error + 'a" where
  "random_choices population weights u =
     (let n = length population; cum_weights = accumulate 0 weights
      in if length cum_weights \<noteq> n then Inl ValueError
         else if cum_weights = [] then Inl IndexError
         else let total = last cum_weights
              in if total \<le> 0 then Inl ValueError
                 else Inr (population ! bisect cum_weights (u * total) 0 (n - 1)))"

text \<open>
  The loop of \<^verbatim>\<open>find_best_route\<close>. \<open>rnd k\<close> is the number the \<open>k\<close>-th call of
  \<^verbatim>\<open>random()\<close> returns. The result is the route and the junction table as the
  scoring left it.
\<close>

function find_best_route_loop ::
  "traci \<Rightarrow> (nat \<Rightarrow> real) \<Rightarrow> nat \<Rightarrow> string list \<Rightarrow> string \<Rightarrow> string set \<Rightarrow> junction_table
     \<Rightarrow> error + (string list \<times> junction_table)" where
  "find_best_route_loop env rnd k route current visited junctions =
     (if length route < length JUNCTIONS
      then
        let next_possible = filter (\<lambda>j. j \<notin> visited) (get_next_junctions env current)
        in if next_possible = [] then Inr (route, junctions)
           else
             (case calculate_scores current next_possible junctions of
                Inl e \<Rightarrow> Inl e
              | Inr (scores, junctions') \<Rightarrow>
                  (case random_choices next_possible (probabilities_of scores) (rnd k) of
                     Inl e \<Rightarrow> Inl e
                   | Inr next_junction \<Rightarrow>
                       find_best_route_loop env rnd (Suc k) (route @ [next_junction])
                         next_junction (insert next_junction visited) junctions'))
      else Inr (route, junctions))"
  by pat_completeness auto
termination
  by (relation "measure (\<lambda>(env, rnd, k, route, current, visited, junctions).
        length JUNCTIONS - length route)") auto

declare find_best_route_loop.simps [simp del]

definition find_best_route ::
  "traci \<Rightarrow> (nat \<Rightarrow> real) \<Rightarrow> string \<Rightarrow> junction_table
     \<Rightarrow> error + (string list \<times> junction_table)" where
  "find_best_route env rnd current_junction junctions =
     (if current_junction \<notin> set JUNCTIONS then Inr ([], junctions)
      else find_best_route_loop env rnd 0 [current_junction] current_junction
             {current_junction} junctions)"

subsection \<open>Signal arbiter\<close>

text \<open>
  \<^verbatim>\<open>get_ambulance_route_info\<close>: \<open>(None, None)\<close> for a vehicle the simulator does
  not list; otherwise the current edge and the edge after it in the vehicle's route,
  both without a trailing \<^verbatim>\<open>_0\<close>.
\<close>

definition get_ambulance_route_info ::
  "traci \<Rightarrow> string \<Rightarrow> error + (string option \<times> string option)" where
  "get_ambulance_route_info env ambulance_id =
     (if ambulance_id \<notin> set (getIDList env) then Inr (None, None)
      else
        let current_edge = strip_lane (getRoadID env ambulance_id);
            route = getRoute env ambulance_id;
            route_index = getRouteIndex env ambulance_id
        in if route_index < int (length route) - 1
           then (case py_get route (route_index + 1) of
                   Inl e \<Rightarrow> Inl e
                 | Inr next_edge \<Rightarrow>
                     Inr (Some current_edge,
                          Some (if next_edge \<noteq> [] then strip_lane next_edge else next_edge)))
           else Inr (Some current_edge, None))"

text \<open>The ambulances of \<open>AMBULANCE_IDS\<close> that have both a current and a next edge.\<close>

fun approaching :: "traci \<Rightarrow> string list \<Rightarrow> error + string list" where
  "approaching env [] = Inr []"
| "approaching env (ambulance_id # rest) =
     (case get_ambulance_route_info env ambulance_id of
        Inl e \<Rightarrow> Inl e
      | Inr (current_edge, next_edge) \<Rightarrow>
          (case approaching env rest of
             Inl e \<Rightarrow> Inl e
           | Inr found \<Rightarrow>
               Inr (if truthy current_edge \<and> truthy next_edge then ambulance_id # found
                    else found)))"

text \<open>The sort key: \<open>0\<close> for \<^verbatim>\<open>CODE_BLACK\<close>, \<open>1\<close> otherwise.\<close>

definition priority_key :: "string \<Rightarrow> nat" where
  "priority_key x = (if AMBULANCE_PRIORITIES x = Some ''CODE_BLACK'' then 0 else 1)"

text \<open>
  The state of the arbiter's loops: the signal string under construction and the
  set \<^verbatim>\<open>processed_directions\<close>.
\<close>

type_synonym arbiter_state = "string \<times> (string \<times> string) set"

definition direction_key :: "link \<Rightarrow> string \<times> string" where
  "direction_key l =
     (case l of (from_edge, to_edge, via) \<Rightarrow>
        (split_underscore_0 from_edge, split_underscore_0 to_edge))"

text \<open>\<^verbatim>\<open>current_state[i] = 'G'; processed_directions.add(direction_key)\<close>.\<close>

definition set_green :: "nat \<Rightarrow> string \<times> string \<Rightarrow> arbiter_state \<Rightarrow> error + arbiter_state" where
  "set_green i key s =
     (case s of (current_state, processed_directions) \<Rightarrow>
        if i < length current_state
        then Inr (current_state[i := CHR ''G''], insert key processed_directions)
        else Inl IndexError)"

text \<open>
  The first condition of the inner loop:
  \<^verbatim>\<open>next_junction and (to_edge_base.endswith(next_junction) or
      any(to_edge_base.startswith(j) for j in route))\<close>.
\<close>

definition leads_on :: "string option \<Rightarrow> string \<Rightarrow> string list \<Rightarrow> bool" where
  "leads_on next_junction to_edge_base route =
     (case next_junction of
        None \<Rightarrow> False
      | Some nj \<Rightarrow> nj \<noteq> [] \<and>
          (endswith to_edge_base nj \<or> list_ex (\<lambda>j. startswith to_edge_base j) route))"

text \<open>The body of the inner loop for the first link \<open>l\<close> of signal index \<open>i\<close>.\<close>

definition link_step ::
  "string \<Rightarrow> string option \<Rightarrow> string list \<Rightarrow> nat \<Rightarrow> link \<Rightarrow> arbiter_state
     \<Rightarrow> error + arbiter_state" where
  "link_step current_edge next_junction route i l s =
     (if current_edge = fst (direction_key l) \<and> direction_key l \<notin> snd s
      then if leads_on next_junction (snd (direction_key l)) route
           then set_green i (direction_key l) s
           else if \<not> truthy next_junction then set_green i (direction_key l) s
           else Inr s
      else Inr s)"

fun process_links ::
  "string \<Rightarrow> string option \<Rightarrow> string list \<Rightarrow> nat \<Rightarrow> link list list \<Rightarrow> arbiter_state
     \<Rightarrow> error + arbiter_state" where
  "process_links current_edge next_junction route i [] s = Inr s"
| "process_links current_edge next_junction route i (links # rest) s =
     (case links of
        [] \<Rightarrow> process_links current_edge next_junction route (Suc i) rest s
      | l # _ \<Rightarrow>
          (case link_step current_edge next_junction route i l s of
             Inl e \<Rightarrow> Inl e
           | Inr s' \<Rightarrow> process_links current_edge next_junction route (Suc i) rest s'))"

text \<open>\<^verbatim>\<open>routes.get(ambulance_id, [])\<close>.\<close>

definition route_of :: "(string \<rightharpoonup> string list) \<Rightarrow> string \<Rightarrow> string list" where
  "route_of routes ambulance_id = (case routes ambulance_id of None \<Rightarrow> [] | Some r \<Rightarrow> r)"

text \<open>
  The junction after \<open>green_junction\<close> in the route, \<open>None\<close> when \<open>green_junction\<close> is
  the last entry or not in the route at all.
\<close>

definition next_junction_of :: "string list \<Rightarrow> string \<Rightarrow> string option" where
  "next_junction_of route green_junction =
     (let current_route_index =
            (if green_junction \<in> set route then int (list_index route green_junction) else - 1)
      in if current_route_index \<ge> 0 \<and> current_route_index < int (length route) - 1
         then Some (route ! nat (current_route_index + 1))
         else None)"

text \<open>The body of the loop over the sorted ambulances.\<close>

definition process_ambulance ::
  "traci \<Rightarrow> string \<Rightarrow> (string \<rightharpoonup> string list) \<Rightarrow> link list list \<Rightarrow> string \<Rightarrow> arbiter_state
     \<Rightarrow> error + arbiter_state" where
  "process_ambulance env green_junction routes controlled_links ambulance_id s =
     (case get_ambulance_route_info env ambulance_id of
        Inl e \<Rightarrow> Inl e
      | Inr (current_edge, next_edge) \<Rightarrow>
          if \<not> truthy current_edge \<or> \<not> truthy next_edge then Inr s
          else
            (case current_edge of
               None \<Rightarrow> Inr s
             | Some ce \<Rightarrow>
                 let route = route_of routes ambulance_id;
                     next_junction = next_junction_of route green_junction
                 in process_links ce next_junction route 0 controlled_links s))"

fun process_ambulances ::
  "traci \<Rightarrow> string \<Rightarrow> (string \<rightharpoonup> string list) \<Rightarrow> link list list \<Rightarrow> string list \<Rightarrow> arbiter_state
     \<Rightarrow> error + arbiter_state" where
  "process_ambulances env green_junction routes controlled_links [] s = Inr s"
| "process_ambulances env green_junction routes controlled_links (ambulance_id # rest) s =
     (case process_ambulance env green_junction routes controlled_links ambulance_id s of
        Inl e \<Rightarrow> Inl e
      | Inr s' \<Rightarrow> process_ambulances env green_junction routes controlled_links rest s')"

text \<open>
  The ambulances in the order the arbiter processes them, and the state its loops
  start from: every signal red, no direction claimed.
\<close>

definition sorted_ambulances :: "traci \<Rightarrow> error + string list" where
  "sorted_ambulances env =
     (case approaching env AMBULANCE_IDS of
        Inl e \<Rightarrow> Inl e
      | Inr found \<Rightarrow> Inr (sort_key priority_key found))"

definition all_red :: "traci \<Rightarrow> string \<Rightarrow> arbiter_state" where
  "all_red env green_junction =
     (replicate (length (getRedYellowGreenState env green_junction)) (CHR ''r''), {})"

text \<open>
  \<^verbatim>\<open>set_signals_for_ambulance\<close>, with the global \<^verbatim>\<open>PREEMPTION_ENABLED\<close> as its
  first argument. The result is the simulator after the call.
\<close>

definition set_signals_for_ambulance ::
  "bool \<Rightarrow> traci \<Rightarrow> string \<Rightarrow> (string \<rightharpoonup> string list) \<Rightarrow> error + traci" where
  "set_signals_for_ambulance PREEMPTION_ENABLED env green_junction routes =
     (if \<not> PREEMPTION_ENABLED then Inr env
      else
        let controlled_links = getControlledLinks env green_junction
        in case sorted_ambulances env of
             Inl e \<Rightarrow> Inl e
           | Inr approaching_ambulances \<Rightarrow>
               (case process_ambulances env green_junction routes controlled_links
                       approaching_ambulances (all_red env green_junction) of
                  Inl e \<Rightarrow> Inl e
                | Inr (new_state, processed_directions) \<Rightarrow>
                    Inr (setRedYellowGreenState env green_junction new_state)))"

subsection \<open>Start and end times\<close>

text \<open>
  The time bookkeeping of one pass of the loop of \<^verbatim>\<open>run_simulation\<close>. The route
  and signal work between the two bookkeeping loops reads and writes only the routes,
  the last junctions, the junction table and the signals, and is left out. The Python
  sets of ambulances are lists without repetition here: the loops over them write one
  dictionary entry per element, so their order does not matter.
\<close>

record tracker =
  AMBULANCE_START_TIMES :: "string \<rightharpoonup> real"
  AMBULANCE_END_TIMES :: "string \<rightharpoonup> real"
  active_ambulances :: "string list"
  ambulance_active :: bool

definition tracker_init :: tracker where
  "tracker_init = \<lparr>AMBULANCE_START_TIMES = Map.empty, AMBULANCE_END_TIMES = Map.empty,
     active_ambulances = [], ambulance_active = False\<rparr>"

fun start_new :: "real \<Rightarrow> string list \<Rightarrow> tracker \<Rightarrow> tracker" where
  "start_new simulation_time [] t = t"
| "start_new simulation_time (ambulance_id # rest) t =
     start_new simulation_time rest
       (t\<lparr>AMBULANCE_START_TIMES := (AMBULANCE_START_TIMES t)(ambulance_id \<mapsto> simulation_time),
          active_ambulances := active_ambulances t @ [ambulance_id]\<rparr>)"

fun finish_gone :: "real \<Rightarrow> string list \<Rightarrow> tracker \<Rightarrow> tracker" where
  "finish_gone simulation_time [] t = t"
| "finish_gone simulation_time (ambulance_id # rest) t =
     finish_gone simulation_time rest
       (t\<lparr>AMBULANCE_END_TIMES := (AMBULANCE_END_TIMES t)(ambulance_id \<mapsto> simulation_time),
          active_ambulances := removeAll ambulance_id (active_ambulances t)\<rparr>)"

definition tick :: "tracker \<Rightarrow> real \<times> string list \<Rightarrow> tracker" where
  "tick t step =
     (case step of (simulation_time, id_list) \<Rightarrow>
        let current_ambulances = filter (\<lambda>aid. aid \<in> set id_list) AMBULANCE_IDS
        in if current_ambulances \<noteq> []
           then
             let t1 = start_new simulation_time
                        (filter (\<lambda>a. a \<notin> set (active_ambulances t)) current_ambulances)
                        (t\<lparr>ambulance_active := True\<rparr>)
             in finish_gone simulation_time
                  (filter (\<lambda>a. a \<notin> set current_ambulances) (active_ambulances t1)) t1
           else if ambulance_active t then t\<lparr>ambulance_active := False\<rparr>
           else t)"

text \<open>A run: the passes of the loop, given the time and the vehicle list of each.\<close>

definition run_simulation :: "(real \<times> string list) list \<Rightarrow> tracker" where
  "run_simulation steps = foldl tick tracker_init steps"


subsection \<open>Reading the junction table\<close>

text \<open>
  \<open>stored\<close> is the entry \<^verbatim>\<open>junctions[a].pheromone[b]\<close> if there is one;
  \<open>read_default\<close> is what scoring reads it as (an absent entry reads as \<open>1.0\<close>);
  \<open>congestion\<close> is \<^verbatim>\<open>junctions[c].traffic_level\<close>; \<open>score_of\<close> is the score
  \<open>pheromone[current][c]^2 / (congestion[c] + 1)\<close>.
\<close>

definition stored :: "junction_table \<Rightarrow> string \<Rightarrow> string \<Rightarrow> real option" where
  "stored junctions a b = (case junctions a of None \<Rightarrow> None | Some ja \<Rightarrow> pheromone ja b)"

definition read_default :: "junction_table \<Rightarrow> string \<Rightarrow> string \<Rightarrow> real" where
  "read_default junctions a b = (case stored junctions a b of None \<Rightarrow> 1 | Some v \<Rightarrow> v)"

definition congestion :: "junction_table \<Rightarrow> string \<Rightarrow> nat" where
  "congestion junctions c = (case junctions c of None \<Rightarrow> 0 | Some jc \<Rightarrow> traffic_level jc)"

definition score_of :: "junction_table \<Rightarrow> string \<Rightarrow> string \<Rightarrow> real" where
  "score_of junctions current c =
     (read_default junctions current c) ^ 2 / (real (congestion junctions c) + 1)"

subsection \<open>Example inputs\<close>

text \<open>
  Two junctions: \<open>J2\<close> with traffic level 3, and \<open>J1\<close> with traffic level 0 whose
  pheromone table has the given entry for \<open>J2\<close>, or none.
\<close>

definition example_junctions :: "real option \<Rightarrow> junction_table" where
  "example_junctions p =
     [''J2'' \<mapsto> \<lparr>id_junction = ''J2'', pheromone = Map.empty, traffic_level = 3\<rparr>,
      ''J1'' \<mapsto> \<lparr>id_junction = ''J1'',
                 pheromone = (case p of None \<Rightarrow> Map.empty | Some v \<Rightarrow> [''J2'' \<mapsto> v]),
                 traffic_level = 0\<rparr>]"

subsection \<open>Invariants\<close>

text \<open>
  What holds of \<open>route\<close>, \<open>current\<close> and \<open>visited\<close> each time the loop of
  \<^verbatim>\<open>find_best_route\<close> tests its condition.
\<close>

definition route_inv :: "string list \<Rightarrow> string \<Rightarrow> string set \<Rightarrow> bool" where
  "route_inv route current visited \<longleftrightarrow>
     route \<noteq> [] \<and> distinct route \<and> visited = set route \<and> current = last route \<and>
     length route \<le> length JUNCTIONS \<and> set route \<subseteq> set JUNCTIONS"

text \<open>
  Between two junction tables: every pheromone entry is as it was, except that an
  entry that was absent may now be \<open>1.0\<close>.
\<close>

definition only_defaults_written :: "junction_table \<Rightarrow> junction_table \<Rightarrow> bool" where
  "only_defaults_written junctions junctions' \<longleftrightarrow>
     (\<forall>a b. stored junctions' a b = stored junctions a b \<or>
            (stored junctions a b = None \<and> stored junctions' a b = Some 1))"

subsection \<open>Example inputs for the route optimizer\<close>

text \<open>
  A simulator for the route optimizer: junction \<open>J1\<close> has one controlled link,
  whose outgoing lane name ends with \<open>J2\<close>; no other junction has links. Every call
  of \<^verbatim>\<open>random()\<close> returns \<open>0.5\<close>.
\<close>

definition example_traci :: traci where
  "example_traci =
     \<lparr>getIDList = [''ambulance_1''],
      getRoadID = (\<lambda>v. ''E1_0''),
      getRoute = (\<lambda>v. [''E1'', ''E2J2'']),
      getRouteIndex = (\<lambda>v. 0),
      getControlledLinks =
        (\<lambda>tls. if tls = ''J1'' then [[(''E1_0'', ''E2J2'', '':J1_0_0'')]] else []),
      getRedYellowGreenState = (\<lambda>tls. ''r''),
      state_commands = []\<rparr>"

definition example_random :: "nat \<Rightarrow> real" where
  "example_random k = 1 / 2"

text \<open>
  The table \<^verbatim>\<open>run_simulation\<close> builds:
  \<^verbatim>\<open>{j_id: Junction(j_id) for j_id in JUNCTIONS}\<close>.
\<close>

definition initial_junctions :: junction_table where
  "initial_junctions = (\<lambda>j_id. if j_id \<in> set JUNCTIONS then Some (new_Junction j_id) else None)"

text \<open>
  The entry for \<open>(a, b)\<close> that one call
  \<^verbatim>\<open>junctions[a].update_pheromone(b, PHEROMONE_DEPOSIT)\<close> would leave.
\<close>

definition deposited :: "junction_table \<Rightarrow> string \<Rightarrow> string \<Rightarrow> real option" where
  "deposited junctions a b =
     (case junctions a of
        None \<Rightarrow> None
      | Some ja \<Rightarrow> pheromone (update_pheromone ja b PHEROMONE_DEPOSIT) b)"

subsection \<open>Claimed directions\<close>

text \<open>
  \<open>first_links\<close> are the links \<^verbatim>\<open>links[0]\<close> of the non-empty entries of a
  controlled-link table, the only ones the arbiter looks at; \<open>approach_keys\<close> are the
  direction keys of those that start on the given edge.
\<close>

definition first_links :: "link list list \<Rightarrow> link list" where
  "first_links controlled_links = concat (map (take 1) controlled_links)"

definition approach_keys :: "string \<Rightarrow> link list list \<Rightarrow> (string \<times> string) set" where
  "approach_keys current_edge controlled_links =
     set (map direction_key
           (filter (\<lambda>l. fst (direction_key l) = current_edge) (first_links controlled_links)))"

text \<open>
  The condition of C7 in the specification's words: the destination edge leads toward
  the target, or toward a junction of the route from the arbitrated junction on
  (matching the junction at either end of the edge name).
\<close>

definition spec_leads_toward_remaining :: "string list \<Rightarrow> string \<Rightarrow> string \<Rightarrow> bool" where
  "spec_leads_toward_remaining route green_junction to_edge_base =
     (case next_junction_of route green_junction of
        None \<Rightarrow> False
      | Some target \<Rightarrow>
          endswith to_edge_base target \<or>
          list_ex (\<lambda>j. startswith to_edge_base j \<or> endswith to_edge_base j)
            (drop (list_index route green_junction) route))"

subsection \<open>Example inputs for the arbiter\<close>

text \<open>
  A junction with four signal indices: two links from edge \<open>E1\<close>, an empty entry and
  a link from edge \<open>N1\<close>. Every listed ambulance is on \<open>E1\<close> with \<open>E2\<close> next.
  \<open>ambulance_1\<close> plans \<open>J1, J2, J3\<close> and \<open>ambulance_2\<close> plans \<open>J2, J3\<close>.
\<close>

definition example_links :: "link list list" where
  "example_links =
     [[(''E1_0'', ''J1x_0'', '':c_0'')], [],
      [(''E1_0'', ''yJ3_0'', '':c_1'')],
      [(''N1_0'', ''zJ3_0'', '':c_2'')]]"

definition example_arbiter :: "string list \<Rightarrow> traci" where
  "example_arbiter ids =
     \<lparr>getIDList = ids,
      getRoadID = (\<lambda>v. ''E1_0''),
      getRoute = (\<lambda>v. [''E1'', ''E2'']),
      getRouteIndex = (\<lambda>v. 0),
      getControlledLinks = (\<lambda>tls. example_links),
      getRedYellowGreenState = (\<lambda>tls. ''rrrr''),
      state_commands = []\<rparr>"

definition example_routes :: "string \<rightharpoonup> string list" where
  "example_routes =
     [''ambulance_1'' \<mapsto> [''J1'', ''J2'', ''J3''], ''ambulance_2'' \<mapsto> [''J2'', ''J3'']]"

section \<open>Pheromone update\<close>

lemma decay_in_unit_interval: "0 < PHEROMONE_DECAY \<and> PHEROMONE_DECAY < 1"
  by (simp add: PHEROMONE_DECAY_def)

lemma update_pheromone_entry:
  "pheromone (update_pheromone self b x) b = Some (stored_or_zero self b * PHEROMONE_DECAY + x)"
  by (auto simp: update_pheromone_def stored_or_zero_def Let_def split: option.splits)

lemma update_pheromone_other:
  "c \<noteq> b \<Longrightarrow> pheromone (update_pheromone self b x) c = pheromone self c"
  by (auto simp: update_pheromone_def Let_def split: option.splits)

text \<open>
  C3 (as the code has it). After \<open>update_pheromone\<close> on the table of junction \<open>a\<close>
  for neighbour \<open>b\<close> with amount \<open>x\<close>, the stored value is \<open>old * d + x\<close> with the
  decay \<open>d\<close> strictly between 0 and 1, where \<open>old\<close> is the value stored before, or
  \<open>0\<close> when the pair had no entry; the result is non-negative whenever \<open>old\<close> and
  \<open>x\<close> are.
\<close>

theorem update_pheromone_decay_deposit:
  "0 < PHEROMONE_DECAY \<and> PHEROMONE_DECAY < 1 \<and>
   pheromone (update_pheromone self b x) b = Some (stored_or_zero self b * PHEROMONE_DECAY + x) \<and>
   (pheromone self b = None \<longrightarrow> pheromone (update_pheromone self b x) b = Some x) \<and>
   (0 \<le> stored_or_zero self b \<and> 0 \<le> x \<longrightarrow> 0 \<le> stored_or_zero self b * PHEROMONE_DECAY + x)"
proof -
  have nonneg: "0 \<le> stored_or_zero self b * PHEROMONE_DECAY + x"
    if "0 \<le> stored_or_zero self b" "0 \<le> x"
  proof -
    have "0 \<le> stored_or_zero self b * PHEROMONE_DECAY"
      using that(1) decay_in_unit_interval by (simp add: mult_nonneg_nonneg less_imp_le)
    then show ?thesis using that(2) by linarith
  qed
  have unseen: "pheromone (update_pheromone self b x) b = Some x" if "pheromone self b = None"
    using that update_pheromone_entry [of self b x] by (simp add: stored_or_zero_def)
  show ?thesis
    using decay_in_unit_interval update_pheromone_entry nonneg unseen by blast
qed

theorem update_pheromone_decay_deposit_witness:
  "pheromone (new_Junction ''J1'') ''J2'' = None \<and>
   pheromone (update_pheromone (new_Junction ''J1'') ''J2'' 3) ''J2'' = Some 3 \<and>
   0 \<le> stored_or_zero (new_Junction ''J1'') ''J2'' \<and> (0::real) \<le> 3 \<and>
   0 \<le> stored_or_zero (new_Junction ''J1'') ''J2'' * PHEROMONE_DECAY + 3"
  using update_pheromone_decay_deposit [of "new_Junction ''J1''" "''J2''" 3]
  by (simp add: new_Junction_def stored_or_zero_def)

text \<open>
  The first update of a pair with no entry does not yield \<open>d * 1.0 + x\<close>: on a fresh
  junction, depositing \<open>1\<close> stores \<open>1\<close>, not \<open>0.95 + 1\<close>.
\<close>

theorem update_pheromone_unseen_counterexample:
  "pheromone (update_pheromone (new_Junction ''J1'') ''J2'' 1) ''J2'' = Some 1 \<and>
   pheromone (update_pheromone (new_Junction ''J1'') ''J2'' 1) ''J2''
     \<noteq> Some (PHEROMONE_DECAY * 1 + 1)"
  by (simp add: update_pheromone_def new_Junction_def PHEROMONE_DECAY_def Let_def)

section \<open>Scoring and selection weights\<close>

lemma crs_total:
  assumes "a \<in> dom junctions" "b \<in> dom junctions"
  shows "\<exists>s js'. calculate_route_score a b junctions = Inr (s, js')"
  using assms
  by (auto simp: calculate_route_score_def Let_def split: option.splits)

lemma crs_result:
  assumes "calculate_route_score a b junctions = Inr (s, js')"
  shows "s = score_of junctions a b"
    and "dom js' = dom junctions"
    and "congestion js' c = congestion junctions c"
    and "stored js' a b = Some (read_default junctions a b)"
    and "x \<noteq> a \<or> y \<noteq> b \<Longrightarrow> stored js' x y = stored junctions x y"
  using assms
  by (auto simp: calculate_route_score_def Let_def score_of_def read_default_def stored_def
      congestion_def split: option.splits if_splits)


lemma cs_total:
  assumes "current \<in> dom junctions" "set cands \<subseteq> dom junctions"
  shows "\<exists>ss js'. calculate_scores current cands junctions = Inr (ss, js')"
  using assms
proof (induction cands arbitrary: junctions)
  case Nil
  then show ?case by simp
next
  case (Cons c cs)
  from Cons.prems obtain s js1 where 1: "calculate_route_score current c junctions = Inr (s, js1)"
    using crs_total [of current junctions c] by auto
  have "dom js1 = dom junctions" using crs_result(2) [OF 1] .
  with Cons.prems have "current \<in> dom js1" "set cs \<subseteq> dom js1" by auto
  from Cons.IH [OF this] obtain ss js2 where "calculate_scores current cs js1 = Inr (ss, js2)"
    by auto
  with 1 show ?case by simp
qed

lemma score_of_after:
  assumes "calculate_route_score a b junctions = Inr (s, js')"
  shows "score_of js' a c = score_of junctions a c"
proof (cases "c = b")
  case True
  have "read_default js' a b = read_default junctions a b"
    using crs_result(4) [OF assms] by (simp add: read_default_def)
  then show ?thesis using True crs_result(3) [OF assms] by (simp add: score_of_def)
next
  case False
  then have "stored js' a c = stored junctions a c" using crs_result(5) [OF assms] by simp
  then show ?thesis using crs_result(3) [OF assms] by (simp add: score_of_def read_default_def)
qed

lemma cs_result:
  assumes "calculate_scores current cands junctions = Inr (ss, js')"
  shows "ss = map (score_of junctions current) cands \<and> dom js' = dom junctions"
  using assms
proof (induction cands arbitrary: junctions ss)
  case Nil
  then show ?case by simp
next
  case (Cons c cs)
  from Cons.prems obtain s js1 ss1 where
    1: "calculate_route_score current c junctions = Inr (s, js1)" and
    2: "calculate_scores current cs js1 = Inr (ss1, js')" and
    3: "ss = s # ss1"
    by (auto split: sum.splits)
  have "ss1 = map (score_of js1 current) cs" "dom js' = dom js1" using Cons.IH [OF 2] by auto
  moreover have "map (score_of js1 current) cs = map (score_of junctions current) cs"
    using score_of_after [OF 1] by simp
  ultimately show ?case using 3 crs_result(1,2) [OF 1] by simp
qed

lemma score_of_nonneg: "0 \<le> score_of junctions a c"
  by (simp add: score_of_def)

lemma sum_list_scaled: "sum_list (map (\<lambda>s. s / t) xs) = sum_list xs / (t::real)"
  by (induction xs) (simp_all add: add_divide_distrib)

lemma probabilities_sum:
  assumes "scores \<noteq> []"
  shows "sum_list (probabilities_of scores) = 1"
proof (cases "sum_list scores = 0")
  case True
  have "real (length scores) \<noteq> 0" using assms by simp
  then show ?thesis using True by (simp add: probabilities_of_def sum_list_replicate)
next
  case False
  then show ?thesis by (simp add: probabilities_of_def sum_list_scaled)
qed

lemma length_probabilities: "length (probabilities_of scores) = length scores"
  by (simp add: probabilities_of_def Let_def)

lemma length_accumulate: "length (accumulate acc ws) = length ws"
  by (induction ws arbitrary: acc) simp_all

lemma last_accumulate: "ws \<noteq> [] \<Longrightarrow> last (accumulate acc ws) = acc + sum_list ws"
proof (induction ws arbitrary: acc)
  case Nil
  then show ?case by simp
next
  case (Cons w ws)
  show ?case
  proof (cases ws)
    case Nil
    then show ?thesis by simp
  next
    case (Cons v vs)
    then have "ws \<noteq> []" by simp
    from Cons.IH [OF this, of "acc + w"] show ?thesis using Cons
      by (simp add: add.assoc)
  qed
qed

lemma bisect_bounds: "lo \<le> hi \<Longrightarrow> lo \<le> bisect a x lo hi \<and> bisect a x lo hi \<le> hi"
proof (induction a x lo hi rule: bisect.induct)
  case (1 a x lo hi)
  show ?case
  proof (cases "lo < hi")
    case False
    then have "bisect a x lo hi = lo" by (subst bisect.simps) simp
    with "1.prems" show ?thesis by simp
  next
    case True
    let ?mid = "(lo + hi) div 2"
    have m: "lo \<le> ?mid" "?mid < hi" using True by linarith+
    show ?thesis
    proof (cases "x < a ! ?mid")
      case left: True
      have "bisect a x lo hi = bisect a x lo ?mid"
        using True left by (subst bisect.simps) (simp add: Let_def)
      with "1.IH"(1) [OF True refl left m(1)] m show ?thesis by simp
    next
      case right: False
      have step: "bisect a x lo hi = bisect a x (?mid + 1) hi"
        using True right by (subst bisect.simps) (simp add: Let_def)
      have "?mid + 1 \<le> hi" using m by simp
      from "1.IH"(2) [OF True refl right this] m step show ?thesis by simp
    qed
  qed
qed

text \<open>
  C4. At a route-construction step with a non-empty candidate list (and every junction
  involved present in the table), each candidate \<open>c\<close> is scored
  \<open>pheromone[current][c]^2 / (congestion[c] + 1)\<close>; the weights handed to the random
  draw are \<open>score / total\<close> when the total is positive and \<open>1 / n\<close> each when it is
  zero, and in both cases they sum to 1.
\<close>

theorem selection_weights:
  assumes "current \<in> dom junctions" and "set candidates \<subseteq> dom junctions"
    and "candidates \<noteq> []"
  shows "\<exists>scores junctions'.
           calculate_scores current candidates junctions = Inr (scores, junctions') \<and>
           scores = map (score_of junctions current) candidates \<and>
           0 \<le> sum_list scores \<and>
           (0 < sum_list scores \<longrightarrow>
              probabilities_of scores = map (\<lambda>s. s / sum_list scores) scores) \<and>
           (sum_list scores = 0 \<longrightarrow>
              probabilities_of scores =
                replicate (length candidates) (1 / real (length candidates))) \<and>
           sum_list (probabilities_of scores) = 1"
proof -
  from cs_total [OF assms(1,2)] obtain scores junctions' where
    run: "calculate_scores current candidates junctions = Inr (scores, junctions')" by blast
  have sc: "scores = map (score_of junctions current) candidates"
    using cs_result [OF run] by simp
  then have ne: "scores \<noteq> []" and len: "length scores = length candidates"
    using assms(3) by simp_all
  have nonneg: "0 \<le> sum_list scores"
    unfolding sc by (rule sum_list_nonneg) (auto simp: score_of_nonneg)
  have pos: "probabilities_of scores = map (\<lambda>s. s / sum_list scores) scores"
    if "0 < sum_list scores"
    using that by (simp add: probabilities_of_def)
  have zero: "probabilities_of scores =
      replicate (length candidates) (1 / real (length candidates))"
    if "sum_list scores = 0"
    using that len by (simp add: probabilities_of_def)
  show ?thesis
    using run sc nonneg pos zero probabilities_sum [OF ne] by blast
qed

lemma example_scores_positive: "calculate_scores ''J1'' [''J2''] (example_junctions (Some 2)) = Inr ([1], example_junctions (Some 2))"
  by (simp add: calculate_route_score_def example_junctions_def Let_def)

lemma example_scores_zero: "calculate_scores ''J1'' [''J2''] (example_junctions (Some 0)) = Inr ([0], example_junctions (Some 0))"
  by (simp add: calculate_route_score_def example_junctions_def Let_def)

theorem selection_weights_witness:
  "''J1'' \<in> dom (example_junctions (Some 2)) \<and>
   set [''J2''] \<subseteq> dom (example_junctions (Some 2)) \<and>
   calculate_scores ''J1'' [''J2''] (example_junctions (Some 2))
     = Inr ([1], example_junctions (Some 2)) \<and>
   0 < sum_list [1::real] \<and>
   probabilities_of [1] = map (\<lambda>s. s / sum_list [1]) [1] \<and>
   calculate_scores ''J1'' [''J2''] (example_junctions (Some 0))
     = Inr ([0], example_junctions (Some 0)) \<and>
   sum_list [0::real] = 0 \<and>
   probabilities_of [0] = replicate (length [''J2'']) (1 / real (length [''J2'']))"
proof -
  have d2: "''J1'' \<in> dom (example_junctions (Some 2))"
    "set [''J2''] \<subseteq> dom (example_junctions (Some 2))"
    by (simp_all add: example_junctions_def)
  have d0: "''J1'' \<in> dom (example_junctions (Some 0))"
    "set [''J2''] \<subseteq> dom (example_junctions (Some 0))"
    by (simp_all add: example_junctions_def)
  have ne: "[''J2''] \<noteq> []" by simp
  from selection_weights [OF d2 ne] example_scores_positive
  have a: "probabilities_of [1] = map (\<lambda>s. s / sum_list [1]) [1::real]" by auto
  from selection_weights [OF d0 ne] example_scores_zero
  have b: "probabilities_of [0] = replicate (length [''J2'']) (1 / real (length [''J2'']))"
    by auto
  show ?thesis using d2 example_scores_positive example_scores_zero a b by simp
qed

text \<open>
  C10. Scoring is not read-only: called for a pair \<open>(a, b)\<close> with no pheromone entry,
  \<open>calculate_route_score\<close> writes the default \<open>1.0\<close> into the table of \<open>a\<close> before
  reading it, so the junction table changes, and a later \<open>update_pheromone\<close> on that
  pair decays from \<open>1.0\<close>, not from an absent entry.
\<close>

theorem scoring_writes_default:
  assumes "junctions a = Some ja" and "junctions b = Some jb" and "pheromone ja b = None"
  shows "\<exists>s junctions' ja'.
           calculate_route_score a b junctions = Inr (s, junctions') \<and>
           junctions' a = Some ja' \<and>
           pheromone ja' b = Some 1 \<and>
           junctions' \<noteq> junctions \<and>
           s = 1 / (real (traffic_level jb) + 1) \<and>
           pheromone (update_pheromone ja' b v) b = Some (1 * PHEROMONE_DECAY + v)"
proof -
  let ?ja' = "ja\<lparr>pheromone := (pheromone ja)(b \<mapsto> 1)\<rparr>"
  let ?js' = "junctions(a \<mapsto> ?ja')"
  have tl: "\<exists>jt. ?js' b = Some jt \<and> traffic_level jt = traffic_level jb"
    using assms(1,2) by (cases "a = b") auto
  have run: "calculate_route_score a b junctions
               = Inr (1 / (real (traffic_level jb) + 1), ?js')"
    using assms tl by (auto simp: calculate_route_score_def Let_def domIff add.commute)
  have entry: "pheromone ?ja' b = Some 1" by simp
  have changed: "?js' \<noteq> junctions"
  proof
    assume "?js' = junctions"
    then have "?js' a = junctions a" by simp
    then have "?ja' = ja" using assms(1) by simp
    then have "pheromone ?ja' b = pheromone ja b" by simp
    then show False using assms(3) by simp
  qed
  have upd: "pheromone (update_pheromone ?ja' b v) b = Some (1 * PHEROMONE_DECAY + v)"
    using update_pheromone_entry [of ?ja' b v] by (simp add: stored_or_zero_def)
  show ?thesis using run entry changed upd by auto
qed

theorem scoring_writes_default_witness:
  "example_junctions None ''J1'' = Some \<lparr>id_junction = ''J1'', pheromone = Map.empty, traffic_level = 0\<rparr> \<and>
   example_junctions None ''J2'' = Some \<lparr>id_junction = ''J2'', pheromone = Map.empty, traffic_level = 3\<rparr> \<and>
   calculate_route_score ''J1'' ''J2'' (example_junctions None)
     = Inr (1 / 4, example_junctions (Some 1))"
proof -
  have a: "example_junctions None ''J1'' = Some \<lparr>id_junction = ''J1'', pheromone = Map.empty, traffic_level = 0\<rparr>"
    by (simp add: example_junctions_def)
  have b: "example_junctions None ''J2'' = Some \<lparr>id_junction = ''J2'', pheromone = Map.empty, traffic_level = 3\<rparr>"
    by (simp add: example_junctions_def)
  have c: "pheromone \<lparr>id_junction = ''J1'', pheromone = Map.empty, traffic_level = 0\<rparr> ''J2'' = None"
    by simp
  from scoring_writes_default [OF a b c, of 0]
  obtain s js' where "calculate_route_score ''J1'' ''J2'' (example_junctions None) = Inr (s, js')"
    by blast
  moreover have "calculate_route_score ''J1'' ''J2'' (example_junctions None)
     = Inr (1 / 4, example_junctions (Some 1))"
    by (simp add: calculate_route_score_def example_junctions_def Let_def)
  ultimately show ?thesis using a b by simp
qed

section \<open>Route construction\<close>

lemma random_choices_member:
  assumes "random_choices population weights u = Inr x"
  shows "x \<in> set population"
proof -
  let ?n = "length population"
  from assms have len: "length (accumulate 0 weights) = ?n" and ne: "accumulate 0 weights \<noteq> []"
    and x: "x = population ! bisect (accumulate 0 weights) (u * last (accumulate 0 weights)) 0 (?n - 1)"
    by (auto simp: random_choices_def Let_def split: if_splits)
  from len ne have pos: "0 < ?n" by (cases population) auto
  have "bisect (accumulate 0 weights) (u * last (accumulate 0 weights)) 0 (?n - 1) \<le> ?n - 1"
    using bisect_bounds [of 0 "?n - 1"] by simp
  with pos have "bisect (accumulate 0 weights) (u * last (accumulate 0 weights)) 0 (?n - 1) < ?n"
    by linarith
  with x show ?thesis by simp
qed

lemma random_choices_total:
  assumes "population \<noteq> []" "length weights = length population" "sum_list weights = 1"
  shows "\<exists>x. random_choices population weights u = Inr x"
proof -
  have "weights \<noteq> []" using assms(1,2) by auto
  then have "last (accumulate 0 weights) = 1" using last_accumulate [of weights 0] assms(3) by simp
  moreover have "accumulate 0 weights \<noteq> []"
    using \<open>weights \<noteq> []\<close> length_accumulate [of 0 weights] by (metis length_0_conv)
  ultimately show ?thesis
    using assms(2) by (simp add: random_choices_def Let_def length_accumulate)
qed

lemma get_next_junctions_subset: "set (get_next_junctions env current) \<subseteq> set JUNCTIONS"
  by (auto simp: get_next_junctions_def split: list.splits)

lemma get_next_junctions_not_current: "current \<notin> set (get_next_junctions env current)"
  by (auto simp: get_next_junctions_def split: list.splits)

lemma loop_result:
  assumes "find_best_route_loop env rnd k route current visited junctions = Inr (r, js')"
    and "route_inv route current visited"
  shows "distinct r \<and> length r \<le> length JUNCTIONS \<and> prefix route r \<and> set r \<subseteq> set JUNCTIONS"
  using assms
proof (induction env rnd k route current visited junctions rule: find_best_route_loop.induct)
  case (1 env rnd k route current visited junctions)
  let ?np = "filter (\<lambda>j. j \<notin> visited) (get_next_junctions env current)"
  show ?case
  proof (cases "length route < length JUNCTIONS \<and> ?np \<noteq> []")
    case False
    with "1.prems" have "r = route"
      by (subst (asm) find_best_route_loop.simps) (auto simp: Let_def split: if_splits)
    with "1.prems"(2) show ?thesis by (simp add: route_inv_def)
  next
    case True
    with "1.prems"(1) obtain scores js1 nj where
      sc: "calculate_scores current ?np junctions = Inr (scores, js1)" and
      ch: "random_choices ?np (probabilities_of scores) (rnd k) = Inr nj" and
      rec: "find_best_route_loop env rnd (Suc k) (route @ [nj]) nj (insert nj visited) js1 = Inr (r, js')"
      by (subst (asm) find_best_route_loop.simps) (auto simp: Let_def split: sum.splits)
    have mem: "nj \<in> set ?np" using random_choices_member [OF ch] .
    then have nv: "nj \<notin> visited" and nJ: "nj \<in> set JUNCTIONS"
      using get_next_junctions_subset by auto
    have inv': "route_inv (route @ [nj]) nj (insert nj visited)"
      using "1.prems"(2) nv nJ True by (auto simp: route_inv_def)
    from "1.IH" [OF _ refl _ sc refl ch rec inv'] True
    have "distinct r \<and> length r \<le> length JUNCTIONS \<and> prefix (route @ [nj]) r \<and> set r \<subseteq> set JUNCTIONS"
      by simp
    then show ?thesis by (auto dest: append_prefixD)
  qed
qed

lemma loop_total:
  assumes "set JUNCTIONS \<subseteq> dom junctions" and "current \<in> set JUNCTIONS"
  shows "\<exists>r js'. find_best_route_loop env rnd k route current visited junctions = Inr (r, js')"
  using assms
proof (induction env rnd k route current visited junctions rule: find_best_route_loop.induct)
  case (1 env rnd k route current visited junctions)
  let ?np = "filter (\<lambda>j. j \<notin> visited) (get_next_junctions env current)"
  show ?case
  proof (cases "length route < length JUNCTIONS \<and> ?np \<noteq> []")
    case False
    then show ?thesis
      by (subst find_best_route_loop.simps) (auto simp: Let_def)
  next
    case True
    have sub: "set ?np \<subseteq> dom junctions" using get_next_junctions_subset "1.prems"(1) by fastforce
    have cur: "current \<in> dom junctions" using "1.prems" by auto
    from cs_total [OF cur sub] obtain scores js1 where
      sc: "calculate_scores current ?np junctions = Inr (scores, js1)" by blast
    have res: "scores = map (score_of junctions current) ?np" "dom js1 = dom junctions"
      using cs_result [OF sc] by auto
    then have ne: "scores \<noteq> []" using True by simp
    have ln: "length scores = length ?np" using res(1) by simp
    have "\<exists>x. random_choices ?np (probabilities_of scores) (rnd k) = Inr x"
    proof (rule random_choices_total)
      show "?np \<noteq> []" using True by simp
      show "length (probabilities_of scores) = length ?np" using ln by (simp add: length_probabilities)
      show "sum_list (probabilities_of scores) = 1" by (rule probabilities_sum [OF ne])
    qed
    then obtain nj where ch: "random_choices ?np (probabilities_of scores) (rnd k) = Inr nj" by blast
    have "nj \<in> set ?np" using random_choices_member [OF ch] .
    then have nJ: "nj \<in> set JUNCTIONS" using get_next_junctions_subset by auto
    have d: "set JUNCTIONS \<subseteq> dom js1" using res(2) "1.prems"(1) by simp
    from "1.IH" [OF _ refl _ sc refl ch d nJ] True
    obtain r js' where "find_best_route_loop env rnd (Suc k) (route @ [nj]) nj (insert nj visited) js1 = Inr (r, js')"
      by auto
    then show ?thesis using True sc ch
      by (subst find_best_route_loop.simps) (simp add: Let_def)
  qed
qed

subsection \<open>Example runs\<close>

lemma example_next: "get_next_junctions example_traci ''J1'' = [''J2'']"
  by (simp add: get_next_junctions_def example_traci_def JUNCTIONS_def endswith_def suffix_to_prefix)

lemma example_next2: "get_next_junctions example_traci ''J2'' = []"
  by (simp add: get_next_junctions_def example_traci_def)

lemma example_choice: "random_choices [''J2''] (probabilities_of [1]) u = Inr ''J2''"
  by (simp add: random_choices_def probabilities_of_def Let_def bisect.simps)

lemma example_route:
  "find_best_route example_traci rnd ''J1'' (example_junctions (Some 2))
     = Inr ([''J1'', ''J2''], example_junctions (Some 2))"
proof -
  have 2: "find_best_route_loop example_traci rnd (Suc 0) [''J1'', ''J2''] ''J2''
             {''J2'', ''J1''} (example_junctions (Some 2))
           = Inr ([''J1'', ''J2''], example_junctions (Some 2))"
    by (subst find_best_route_loop.simps) (simp add: example_next2 JUNCTIONS_def)
  have 1: "find_best_route_loop example_traci rnd 0 [''J1''] ''J1'' {''J1''}
             (example_junctions (Some 2))
           = Inr ([''J1'', ''J2''], example_junctions (Some 2))"
    by (subst find_best_route_loop.simps)
       (simp add: example_next example_scores_positive example_choice 2 JUNCTIONS_def del: calculate_scores.simps)
  show ?thesis by (simp add: find_best_route_def 1 JUNCTIONS_def)
qed

lemma example_choice_quarter: "random_choices [''J2''] (probabilities_of [1 / 4]) u = Inr ''J2''"
  by (simp add: random_choices_def probabilities_of_def Let_def bisect.simps)

lemma example_scores_none:
  "calculate_scores ''J1'' [''J2''] (example_junctions None) = Inr ([1 / 4], example_junctions (Some 1))"
  by (simp add: calculate_route_score_def example_junctions_def Let_def)

lemma example_route_none:
  "find_best_route example_traci rnd ''J1'' (example_junctions None)
     = Inr ([''J1'', ''J2''], example_junctions (Some 1))"
proof -
  have 2: "find_best_route_loop example_traci rnd (Suc 0) [''J1'', ''J2''] ''J2''
             {''J2'', ''J1''} (example_junctions (Some 1))
           = Inr ([''J1'', ''J2''], example_junctions (Some 1))"
    by (subst find_best_route_loop.simps) (simp add: example_next2 JUNCTIONS_def)
  have 1: "find_best_route_loop example_traci rnd 0 [''J1''] ''J1'' {''J1''}
             (example_junctions None)
           = Inr ([''J1'', ''J2''], example_junctions (Some 1))"
    by (subst find_best_route_loop.simps)
       (simp add: example_next example_scores_none example_choice_quarter 2 JUNCTIONS_def
          del: calculate_scores.simps)
  show ?thesis by (simp add: find_best_route_def 1 JUNCTIONS_def)
qed

lemma example_route_initial:
  "find_best_route example_traci rnd ''J1'' initial_junctions
     = Inr ([''J1'', ''J2''],
            initial_junctions(''J1'' \<mapsto> (new_Junction ''J1'')\<lparr>pheromone := [''J2'' \<mapsto> 1]\<rparr>))"
proof -
  let ?js = "initial_junctions(''J1'' \<mapsto> (new_Junction ''J1'')\<lparr>pheromone := [''J2'' \<mapsto> 1]\<rparr>)"
  have sc: "calculate_scores ''J1'' [''J2''] initial_junctions = Inr ([1], ?js)"
    by (simp add: calculate_route_score_def initial_junctions_def new_Junction_def Let_def
        JUNCTIONS_def)
  have 2: "find_best_route_loop example_traci rnd (Suc 0) [''J1'', ''J2''] ''J2''
             {''J2'', ''J1''} ?js = Inr ([''J1'', ''J2''], ?js)"
    by (subst find_best_route_loop.simps) (simp add: example_next2 JUNCTIONS_def)
  have 1: "find_best_route_loop example_traci rnd 0 [''J1''] ''J1'' {''J1''} initial_junctions
           = Inr ([''J1'', ''J2''], ?js)"
    by (subst find_best_route_loop.simps)
       (simp add: example_next sc example_choice 2 JUNCTIONS_def del: calculate_scores.simps)
  show ?thesis by (simp add: find_best_route_def 1 JUNCTIONS_def)
qed

lemma example_route_dead_end:
  "find_best_route example_traci rnd ''J2'' initial_junctions = Inr ([''J2''], initial_junctions)"
proof -
  have "find_best_route_loop example_traci rnd 0 [''J2''] ''J2'' {''J2''} initial_junctions
      = Inr ([''J2''], initial_junctions)"
    by (subst find_best_route_loop.simps) (simp add: example_next2 JUNCTIONS_def)
  then show ?thesis by (simp add: find_best_route_def JUNCTIONS_def)
qed

subsection \<open>Shape of the route\<close>

text \<open>
  C5. \<open>find_best_route\<close> returns a route whenever the junction table has every
  junction of \<open>JUNCTIONS\<close>, and every route it returns consists of pairwise distinct
  junctions and is no longer than \<open>JUNCTIONS\<close>; when the start is a known junction
  the route begins with it, and the route is just the start when the start has no
  neighbours to go to.
\<close>

theorem find_best_route_properties:
  "(set JUNCTIONS \<subseteq> dom junctions \<longrightarrow>
      (\<exists>route junctions'. find_best_route env rnd start junctions = Inr (route, junctions'))) \<and>
   (\<forall>route junctions'. find_best_route env rnd start junctions = Inr (route, junctions') \<longrightarrow>
      distinct route \<and> length route \<le> length JUNCTIONS \<and>
      (start \<in> set JUNCTIONS \<longrightarrow> route \<noteq> [] \<and> hd route = start) \<and>
      (start \<in> set JUNCTIONS \<and> get_next_junctions env start = [] \<longrightarrow> route = [start]))"
proof -
  have total: "\<exists>route junctions'. find_best_route env rnd start junctions = Inr (route, junctions')"
    if "set JUNCTIONS \<subseteq> dom junctions"
  proof (cases "start \<in> set JUNCTIONS")
    case True
    then show ?thesis using loop_total [OF that True] by (simp add: find_best_route_def)
  next
    case False
    then show ?thesis by (simp add: find_best_route_def)
  qed
  have props: "distinct route \<and> length route \<le> length JUNCTIONS \<and>
      (start \<in> set JUNCTIONS \<longrightarrow> route \<noteq> [] \<and> hd route = start) \<and>
      (start \<in> set JUNCTIONS \<and> get_next_junctions env start = [] \<longrightarrow> route = [start])"
    if run: "find_best_route env rnd start junctions = Inr (route, junctions')"
    for route junctions'
  proof (cases "start \<in> set JUNCTIONS")
    case False
    with run have "route = []" by (simp add: find_best_route_def)
    with False show ?thesis by simp
  next
    case True
    with run have lp: "find_best_route_loop env rnd 0 [start] start {start} junctions
        = Inr (route, junctions')"
      by (simp add: find_best_route_def)
    have inv: "route_inv [start] start {start}"
      using True by (simp add: route_inv_def JUNCTIONS_def)
    from loop_result [OF lp inv]
    have r: "distinct route" "length route \<le> length JUNCTIONS" "prefix [start] route" by auto
    from r(3) have hd: "route \<noteq> [] \<and> hd route = start" by (auto simp: prefix_def)
    have one: "route = [start]" if "get_next_junctions env start = []"
      using lp that by (subst (asm) find_best_route_loop.simps) (simp add: JUNCTIONS_def)
    show ?thesis using r hd one by blast
  qed
  show ?thesis using total props by blast
qed

theorem find_best_route_properties_witness:
  "set JUNCTIONS \<subseteq> dom initial_junctions \<and>
   find_best_route example_traci example_random ''J1'' initial_junctions
     = Inr ([''J1'', ''J2''],
            initial_junctions(''J1'' \<mapsto> (new_Junction ''J1'')\<lparr>pheromone := [''J2'' \<mapsto> 1]\<rparr>)) \<and>
   distinct [''J1'', ''J2''] \<and> length [''J1'', ''J2''] \<le> length JUNCTIONS \<and>
   ''J1'' \<in> set JUNCTIONS \<and> hd [''J1'', ''J2''] = ''J1'' \<and>
   ''J2'' \<in> set JUNCTIONS \<and> get_next_junctions example_traci ''J2'' = [] \<and>
   find_best_route example_traci example_random ''J2'' initial_junctions
     = Inr ([''J2''], initial_junctions)"
proof -
  have d: "set JUNCTIONS \<subseteq> dom initial_junctions"
    by (auto simp: initial_junctions_def)
  have m: "''J1'' \<in> set JUNCTIONS" "''J2'' \<in> set JUNCTIONS" by (simp_all add: JUNCTIONS_def)
  note t1 = find_best_route_properties
    [of initial_junctions example_traci example_random "''J1''", THEN conjunct2, rule_format,
     OF example_route_initial]
  note t2 = find_best_route_properties
    [of initial_junctions example_traci example_random "''J2''", THEN conjunct2, rule_format,
     OF example_route_dead_end]
  show ?thesis using d m t1 t2 example_route_initial example_route_dead_end example_next2 by simp
qed

subsection \<open>Effect on the pheromone tables\<close>

lemma odw_refl: "only_defaults_written js js"
  by (simp add: only_defaults_written_def)

lemma odw_trans:
  "only_defaults_written js1 js2 \<Longrightarrow> only_defaults_written js2 js3 \<Longrightarrow> only_defaults_written js1 js3"
  unfolding only_defaults_written_def by (metis option.distinct(1))

lemma odw_read: "only_defaults_written js js' \<Longrightarrow> read_default js' a b = read_default js a b"
  unfolding only_defaults_written_def read_default_def
  by (metis option.simps(4,5))

lemma odw_keeps: "only_defaults_written js js' \<Longrightarrow> stored js a b = Some v \<Longrightarrow> stored js' a b = Some v"
  unfolding only_defaults_written_def by (metis option.distinct(1))

lemma crs_odw:
  assumes "calculate_route_score a b junctions = Inr (s, js')"
  shows "only_defaults_written junctions js'"
  unfolding only_defaults_written_def
proof (intro allI)
  fix x y
  show "stored js' x y = stored junctions x y \<or> stored junctions x y = None \<and> stored js' x y = Some 1"
  proof (cases "x = a \<and> y = b")
    case True
    then show ?thesis using crs_result(4) [OF assms]
      by (cases "stored junctions a b") (auto simp: read_default_def)
  next
    case False
    then show ?thesis using crs_result(5) [OF assms, of x y] by auto
  qed
qed

lemma cs_odw:
  assumes "calculate_scores current cands junctions = Inr (ss, js')"
  shows "only_defaults_written junctions js' \<and>
         (\<forall>c \<in> set cands. stored js' current c = Some (read_default junctions current c))"
  using assms
proof (induction cands arbitrary: junctions ss)
  case Nil
  then show ?case by (simp add: odw_refl)
next
  case (Cons c cs)
  from Cons.prems obtain s js1 ss1 where
    1: "calculate_route_score current c junctions = Inr (s, js1)" and
    2: "calculate_scores current cs js1 = Inr (ss1, js')"
    by (auto split: sum.splits)
  have a: "only_defaults_written junctions js1" using crs_odw [OF 1] .
  have b: "only_defaults_written js1 js'"
    and c: "\<forall>c \<in> set cs. stored js' current c = Some (read_default js1 current c)"
    using Cons.IH [OF 2] by auto
  have "stored js1 current c = Some (read_default junctions current c)"
    using crs_result(4) [OF 1] .
  then have hd: "stored js' current c = Some (read_default junctions current c)"
    using odw_keeps [OF b] by simp
  have tl: "\<forall>c \<in> set cs. stored js' current c = Some (read_default junctions current c)"
    using c odw_read [OF a] by simp
  show ?case using odw_trans [OF a b] hd tl by simp
qed

lemma loop_frame:
  assumes "find_best_route_loop env rnd k route current visited junctions = Inr (r, js')"
    and "route_inv route current visited"
  shows "only_defaults_written junctions js' \<and>
         (\<forall>i. length route \<le> Suc i \<and> Suc i < length r \<longrightarrow>
            stored js' (r ! i) (r ! Suc i) = Some (read_default junctions (r ! i) (r ! Suc i)))"
  using assms
proof (induction env rnd k route current visited junctions rule: find_best_route_loop.induct)
  case (1 env rnd k route current visited junctions)
  let ?np = "filter (\<lambda>j. j \<notin> visited) (get_next_junctions env current)"
  show ?case
  proof (cases "length route < length JUNCTIONS \<and> ?np \<noteq> []")
    case False
    with "1.prems" have "r = route" "js' = junctions"
      by (subst (asm) find_best_route_loop.simps, auto simp: Let_def split: if_splits)+
    then show ?thesis by (auto simp: odw_refl)
  next
    case True
    with "1.prems"(1) obtain scores js1 nj where
      sc: "calculate_scores current ?np junctions = Inr (scores, js1)" and
      ch: "random_choices ?np (probabilities_of scores) (rnd k) = Inr nj" and
      rec: "find_best_route_loop env rnd (Suc k) (route @ [nj]) nj (insert nj visited) js1 = Inr (r, js')"
      by (subst (asm) find_best_route_loop.simps) (auto simp: Let_def split: sum.splits)
    have mem: "nj \<in> set ?np" using random_choices_member [OF ch] .
    then have nv: "nj \<notin> visited" and nJ: "nj \<in> set JUNCTIONS"
      using get_next_junctions_subset by auto
    have inv': "route_inv (route @ [nj]) nj (insert nj visited)"
      using "1.prems"(2) nv nJ True by (auto simp: route_inv_def)
    from "1.IH" [OF _ refl _ sc refl ch rec inv'] True
    have b: "only_defaults_written js1 js'" and
      later: "\<forall>i. length (route @ [nj]) \<le> Suc i \<and> Suc i < length r \<longrightarrow>
            stored js' (r ! i) (r ! Suc i) = Some (read_default js1 (r ! i) (r ! Suc i))"
      by simp_all
    have a: "only_defaults_written junctions js1" and
      scored: "stored js1 current nj = Some (read_default junctions current nj)"
      using cs_odw [OF sc] mem by auto
    have pre: "prefix (route @ [nj]) r" using loop_result [OF rec inv'] by simp
    have ne: "route \<noteq> []" and cur: "current = last route"
      using "1.prems"(2) by (simp_all add: route_inv_def)
    have at: "r ! (length route - 1) = current" "r ! length route = nj"
    proof -
      from pre obtain zs where r: "r = (route @ [nj]) @ zs" by (auto simp: prefix_def)
      show "r ! (length route - 1) = current"
        using ne cur r by (simp add: nth_append last_conv_nth)
      show "r ! length route = nj" using r by (simp add: nth_append)
    qed
    have "stored js' (r ! i) (r ! Suc i) = Some (read_default junctions (r ! i) (r ! Suc i))"
      if i: "length route \<le> Suc i" "Suc i < length r" for i
    proof (cases "Suc i = length route")
      case True
      then have "i = length route - 1" by simp
      with True have "r ! i = current" "r ! Suc i = nj" using at by simp_all
      then show ?thesis using odw_keeps [OF b scored] by simp
    next
      case False
      then have "length (route @ [nj]) \<le> Suc i" using i by simp
      then show ?thesis using later i odw_read [OF a] by simp
    qed
    then show ?thesis using odw_trans [OF a b] by blast
  qed
qed

text \<open>
  C8 (as the code has it). \<open>find_best_route\<close> never calls \<open>update_pheromone\<close>:
  nothing is decayed and nothing deposited. Every pheromone entry keeps its value,
  except that an absent entry may become the default \<open>1.0\<close> that scoring writes;
  for each consecutive pair of the route, the entry after the construction is the
  value stored before, or \<open>1.0\<close> if there was none.
\<close>

theorem route_construction_deposits_nothing:
  assumes "find_best_route env rnd start junctions = Inr (route, junctions')"
  shows "only_defaults_written junctions junctions' \<and>
         (\<forall>i. Suc i < length route \<longrightarrow>
            stored junctions' (route ! i) (route ! Suc i)
              = Some (read_default junctions (route ! i) (route ! Suc i)))"
proof (cases "start \<in> set JUNCTIONS")
  case False
  with assms show ?thesis by (simp add: find_best_route_def odw_refl)
next
  case True
  with assms have lp: "find_best_route_loop env rnd 0 [start] start {start} junctions
      = Inr (route, junctions')"
    by (simp add: find_best_route_def)
  have inv: "route_inv [start] start {start}"
    using True by (simp add: route_inv_def JUNCTIONS_def)
  from loop_frame [OF lp inv] show ?thesis by simp
qed

theorem route_construction_deposits_nothing_witness:
  "find_best_route example_traci example_random ''J1'' (example_junctions None)
     = Inr ([''J1'', ''J2''], example_junctions (Some 1)) \<and>
   Suc 0 < length [''J1'', ''J2''] \<and>
   only_defaults_written (example_junctions None) (example_junctions (Some 1)) \<and>
   stored (example_junctions (Some 1)) ''J1'' ''J2''
     = Some (read_default (example_junctions None) ''J1'' ''J2'') \<and>
   read_default (example_junctions None) ''J1'' ''J2'' = 1"
proof -
  note t = route_construction_deposits_nothing [OF example_route_none [of example_random]]
  from t have a: "only_defaults_written (example_junctions None) (example_junctions (Some 1))"
    by simp
  from t have "Suc 0 < length [''J1'', ''J2''] \<longrightarrow>
      stored (example_junctions (Some 1)) ([''J1'', ''J2''] ! 0) ([''J1'', ''J2''] ! Suc 0)
        = Some (read_default (example_junctions None) ([''J1'', ''J2''] ! 0)
                  ([''J1'', ''J2''] ! Suc 0))"
    by blast
  then have b: "stored (example_junctions (Some 1)) ''J1'' ''J2''
     = Some (read_default (example_junctions None) ''J1'' ''J2'')" by simp
  have c: "read_default (example_junctions None) ''J1'' ''J2'' = 1"
    by (simp add: read_default_def stored_def example_junctions_def)
  show ?thesis using a b c example_route_none by simp
qed

text \<open>
  With the entry for \<open>(J1, J2)\<close> at \<open>2\<close>, the route \<open>J1, J2\<close> is built and the
  entry is still \<open>2\<close>; one decay-and-deposit step would have left \<open>2.9\<close>.
\<close>

theorem route_construction_deposit_counterexample:
  "find_best_route example_traci example_random ''J1'' (example_junctions (Some 2))
     = Inr ([''J1'', ''J2''], example_junctions (Some 2)) \<and>
   stored (example_junctions (Some 2)) ''J1'' ''J2'' = Some 2 \<and>
   deposited (example_junctions (Some 2)) ''J1'' ''J2'' = Some (29 / 10)"
proof -
  have "stored (example_junctions (Some 2)) ''J1'' ''J2'' = Some 2"
    by (simp add: stored_def example_junctions_def)
  moreover have "deposited (example_junctions (Some 2)) ''J1'' ''J2'' = Some (29 / 10)"
    by (simp add: deposited_def example_junctions_def update_pheromone_def
        PHEROMONE_DECAY_def PHEROMONE_DEPOSIT_def Let_def)
  ultimately show ?thesis using example_route [of example_random] by simp
qed

section \<open>Signal arbitration\<close>

subsection \<open>The loop over the controlled links\<close>

lemma link_step_cases:
  assumes "link_step ce nj route i l s = Inr s'"
  shows "s' = s \<or>
         (i < length (fst s) \<and> s' = ((fst s)[i := CHR ''G''], insert (direction_key l) (snd s)) \<and>
          ce = fst (direction_key l) \<and> direction_key l \<notin> snd s \<and>
          (leads_on nj (snd (direction_key l)) route \<or> \<not> truthy nj))"
  using assms
  by (cases s) (auto simp: link_step_def set_green_def split: if_splits)

lemma process_links_effect:
  assumes "process_links ce nj route i links s = Inr s'"
  shows "length (fst s') = length (fst s) \<and> snd s \<subseteq> snd s' \<and>
    (\<forall>j. fst s' ! j \<noteq> fst s ! j \<longrightarrow>
       fst s' ! j = CHR ''G'' \<and> i \<le> j \<and> j < i + length links \<and>
       (\<exists>l ls. links ! (j - i) = l # ls \<and> ce = fst (direction_key l) \<and>
          direction_key l \<notin> snd s \<and>
          (leads_on nj (snd (direction_key l)) route \<or> \<not> truthy nj))) \<and>
    (\<forall>k. k \<in> snd s' \<and> k \<notin> snd s \<longrightarrow>
       (\<exists>j l ls. i \<le> j \<and> j < i + length links \<and> links ! (j - i) = l # ls \<and>
          direction_key l = k \<and> fst s' ! j = CHR ''G''))"
  using assms
proof (induction links arbitrary: i s)
  case Nil
  then show ?case by simp
next
  case (Cons x rest)
  show ?case
  proof (cases x)
    case Nil
    with Cons.prems have rec: "process_links ce nj route (Suc i) rest s = Inr s'" by simp
    note IH = Cons.IH [OF rec]
    have idx: "(x # rest) ! (j - i) = rest ! (j - Suc i)" if "Suc i \<le> j" for j
      using that by (simp add: Suc_diff_le)
    have 3: "fst s' ! j = CHR ''G'' \<and> i \<le> j \<and> j < i + length (x # rest) \<and>
       (\<exists>l ls. (x # rest) ! (j - i) = l # ls \<and> ce = fst (direction_key l) \<and>
          direction_key l \<notin> snd s \<and>
          (leads_on nj (snd (direction_key l)) route \<or> \<not> truthy nj))"
      if "fst s' ! j \<noteq> fst s ! j" for j
    proof -
      from IH that have a: "fst s' ! j = CHR ''G''" "Suc i \<le> j" "j < Suc i + length rest"
        and b: "\<exists>l ls. rest ! (j - Suc i) = l # ls \<and> ce = fst (direction_key l) \<and>
          direction_key l \<notin> snd s \<and>
          (leads_on nj (snd (direction_key l)) route \<or> \<not> truthy nj)"
        by blast+
      show ?thesis using a b idx [OF a(2)] by simp
    qed
    have 4: "\<exists>j l ls. i \<le> j \<and> j < i + length (x # rest) \<and> (x # rest) ! (j - i) = l # ls \<and>
          direction_key l = k \<and> fst s' ! j = CHR ''G''"
      if "k \<in> snd s'" "k \<notin> snd s" for k
    proof -
      from IH that obtain j l ls where j: "Suc i \<le> j" "j < Suc i + length rest"
        "rest ! (j - Suc i) = l # ls" "direction_key l = k" "fst s' ! j = CHR ''G''"
        by blast
      then have "i \<le> j" "j < i + length (x # rest)" "(x # rest) ! (j - i) = l # ls"
        using idx [OF j(1)] by simp_all
      with j show ?thesis by blast
    qed
    show ?thesis using IH 3 4 by blast
  next
    case (Cons l ls)
    with Cons.prems obtain s1 where
      step: "link_step ce nj route i l s = Inr s1" and
      rec: "process_links ce nj route (Suc i) rest s1 = Inr s'"
      by (auto split: sum.splits)
    note IH = Cons.IH [OF rec]
    note cs = link_step_cases [OF step]
    have idx: "(x # rest) ! (j - i) = rest ! (j - Suc i)" if "Suc i \<le> j" for j
      using that by (simp add: Suc_diff_le)
    have len1: "length (fst s1) = length (fst s)" using cs by auto
    have sub1: "snd s \<subseteq> snd s1" using cs by auto
    have keep_i: "fst s' ! i = fst s1 ! i"
    proof (rule ccontr)
      assume "fst s' ! i \<noteq> fst s1 ! i"
      with IH have "Suc i \<le> i" by blast
      then show False by simp
    qed
    have 3: "fst s' ! j = CHR ''G'' \<and> i \<le> j \<and> j < i + length (x # rest) \<and>
       (\<exists>l ls. (x # rest) ! (j - i) = l # ls \<and> ce = fst (direction_key l) \<and>
          direction_key l \<notin> snd s \<and>
          (leads_on nj (snd (direction_key l)) route \<or> \<not> truthy nj))"
      if ch: "fst s' ! j \<noteq> fst s ! j" for j
    proof (cases "fst s' ! j \<noteq> fst s1 ! j")
      case True
      with IH have a: "fst s' ! j = CHR ''G''" "Suc i \<le> j" "j < Suc i + length rest"
        and b: "\<exists>l ls. rest ! (j - Suc i) = l # ls \<and> ce = fst (direction_key l) \<and>
          direction_key l \<notin> snd s1 \<and>
          (leads_on nj (snd (direction_key l)) route \<or> \<not> truthy nj)"
        by blast+
      from b sub1 have "\<exists>l ls. rest ! (j - Suc i) = l # ls \<and> ce = fst (direction_key l) \<and>
          direction_key l \<notin> snd s \<and>
          (leads_on nj (snd (direction_key l)) route \<or> \<not> truthy nj)"
        by blast
      then show ?thesis using a idx [OF a(2)] by simp
    next
      case False
      then have eq: "fst s' ! j = fst s1 ! j" by simp
      with ch have ne: "fst s1 ! j \<noteq> fst s ! j" by simp
      then have "s1 \<noteq> s" by auto
      with cs have g: "i < length (fst s)" "s1 = ((fst s)[i := CHR ''G''], insert (direction_key l) (snd s))"
        "ce = fst (direction_key l)" "direction_key l \<notin> snd s"
        "leads_on nj (snd (direction_key l)) route \<or> \<not> truthy nj"
        by auto
      have "j = i" using ne g(2) by (cases "j = i") auto
      then show ?thesis using eq g Cons by simp
    qed
    have 4: "\<exists>j l ls. i \<le> j \<and> j < i + length (x # rest) \<and> (x # rest) ! (j - i) = l # ls \<and>
          direction_key l = k \<and> fst s' ! j = CHR ''G''"
      if k: "k \<in> snd s'" "k \<notin> snd s" for k
    proof (cases "k \<in> snd s1")
      case False
      with IH k obtain j l' ls' where j: "Suc i \<le> j" "j < Suc i + length rest"
        "rest ! (j - Suc i) = l' # ls'" "direction_key l' = k" "fst s' ! j = CHR ''G''"
        by blast
      then have "i \<le> j" "j < i + length (x # rest)" "(x # rest) ! (j - i) = l' # ls'"
        using idx [OF j(1)] by simp_all
      with j show ?thesis by blast
    next
      case True
      with k have "s1 \<noteq> s" by auto
      with cs have g: "i < length (fst s)" "s1 = ((fst s)[i := CHR ''G''], insert (direction_key l) (snd s))"
        by auto
      with True k have "k = direction_key l" by auto
      moreover have "fst s' ! i = CHR ''G''" using keep_i g by simp
      ultimately have "i \<le> i \<and> i < i + length (x # rest) \<and> (x # rest) ! (i - i) = l # ls \<and>
          direction_key l = k \<and> fst s' ! i = CHR ''G''"
        using Cons by simp
      then show ?thesis by blast
    qed
    have "length (fst s') = length (fst s)" using IH len1 by simp
    moreover have "snd s \<subseteq> snd s'" using IH sub1 by blast
    ultimately show ?thesis using 3 4 by blast
  qed
qed

lemma not_truthy_leads_on: "\<not> truthy nj \<Longrightarrow> \<not> leads_on nj t route"
  by (auto simp: truthy_def leads_on_def split: option.splits)

lemma link_step_no_target:
  assumes "\<not> truthy nj" and "link_step ce nj route i l s = Inr s'"
  shows "snd s' = (if fst (direction_key l) = ce then insert (direction_key l) (snd s) else snd s)"
  using assms not_truthy_leads_on [OF assms(1)]
  by (cases s) (auto simp: link_step_def set_green_def split: if_splits)

lemma process_links_no_target:
  assumes "\<not> truthy nj" and "process_links ce nj route i links s = Inr s'"
  shows "snd s' = snd s \<union> approach_keys ce links"
  using assms(2)
proof (induction links arbitrary: i s)
  case Nil
  then show ?case by (simp add: approach_keys_def first_links_def)
next
  case (Cons x rest)
  show ?case
  proof (cases x)
    case Nil
    with Cons.prems have "process_links ce nj route (Suc i) rest s = Inr s'" by simp
    from Cons.IH [OF this] Nil show ?thesis by (simp add: approach_keys_def first_links_def)
  next
    case (Cons l ls)
    with Cons.prems obtain s1 where
      step: "link_step ce nj route i l s = Inr s1" and
      rec: "process_links ce nj route (Suc i) rest s1 = Inr s'"
      by (auto split: sum.splits)
    from Cons.IH [OF rec] link_step_no_target [OF assms(1) step] Cons
    show ?thesis by (auto simp: approach_keys_def first_links_def)
  qed
qed

lemma link_step_total:
  assumes "i < length (fst s)"
  shows "\<exists>s'. link_step ce nj route i l s = Inr s' \<and> length (fst s') = length (fst s)"
  using assms by (cases s) (auto simp: link_step_def set_green_def)

lemma process_links_total:
  assumes "i + length links \<le> length (fst s)"
  shows "\<exists>s'. process_links ce nj route i links s = Inr s'"
  using assms
proof (induction links arbitrary: i s)
  case Nil
  then show ?case by simp
next
  case (Cons x rest)
  show ?case
  proof (cases x)
    case Nil
    with Cons.prems Cons.IH [of "Suc i" s] show ?thesis by simp
  next
    case (Cons l ls)
    from Cons.prems have "i < length (fst s)" by simp
    from link_step_total [OF this, of ce nj route l] obtain s1 where
      s1: "link_step ce nj route i l s = Inr s1" "length (fst s1) = length (fst s)" by blast
    with Cons.prems have "Suc i + length rest \<le> length (fst s1)" by simp
    from Cons.IH [OF this] s1 Cons show ?thesis by simp
  qed
qed

text \<open>What the processing of one ambulance, and of a list of them, may change.\<close>

lemma process_ambulance_effect:
  assumes "process_ambulance env gj routes links a s = Inr s'"
  shows "length (fst s') = length (fst s) \<and> snd s \<subseteq> snd s' \<and>
    (\<forall>j. fst s' ! j \<noteq> fst s ! j \<longrightarrow>
       fst s' ! j = CHR ''G'' \<and> j < length links \<and>
       (\<exists>l ls. links ! j = l # ls \<and> direction_key l \<notin> snd s))"
proof -
  from assms obtain ce ne where info: "get_ambulance_route_info env a = Inr (ce, ne)"
    by (auto simp: process_ambulance_def split: sum.splits)
  show ?thesis
  proof (cases "\<not> truthy ce \<or> \<not> truthy ne")
    case True
    with assms info have "s' = s" by (simp add: process_ambulance_def)
    then show ?thesis by simp
  next
    case False
    then obtain c where ce: "ce = Some c" by (cases ce) (auto simp: truthy_def)
    with assms info False have
      "process_links c (next_junction_of (route_of routes a) gj) (route_of routes a) 0 links s = Inr s'"
      by (simp add: process_ambulance_def Let_def)
    from process_links_effect [OF this] show ?thesis by auto
  qed
qed

lemma process_ambulances_effect:
  assumes "process_ambulances env gj routes links as s = Inr s'"
  shows "length (fst s') = length (fst s) \<and> snd s \<subseteq> snd s' \<and>
    (\<forall>j. fst s' ! j \<noteq> fst s ! j \<longrightarrow>
       fst s' ! j = CHR ''G'' \<and> j < length links \<and>
       (\<exists>l ls. links ! j = l # ls \<and> direction_key l \<notin> snd s))"
  using assms
proof (induction as arbitrary: s)
  case Nil
  then show ?case by simp
next
  case (Cons a as)
  from Cons.prems obtain s1 where
    1: "process_ambulance env gj routes links a s = Inr s1" and
    2: "process_ambulances env gj routes links as s1 = Inr s'"
    by (auto split: sum.splits)
  note e1 = process_ambulance_effect [OF 1]
  note e2 = Cons.IH [OF 2]
  have "fst s' ! j = CHR ''G'' \<and> j < length links \<and>
       (\<exists>l ls. links ! j = l # ls \<and> direction_key l \<notin> snd s)"
    if ch: "fst s' ! j \<noteq> fst s ! j" for j
  proof (cases "fst s' ! j \<noteq> fst s1 ! j")
    case True
    with e2 have "fst s' ! j = CHR ''G''" "j < length links"
      "\<exists>l ls. links ! j = l # ls \<and> direction_key l \<notin> snd s1" by blast+
    with e1 show ?thesis by blast
  next
    case False
    with ch have "fst s1 ! j \<noteq> fst s ! j" by simp
    with e1 False show ?thesis by auto
  qed
  then show ?case using e1 e2 by auto
qed

lemma process_ambulances_append:
  "process_ambulances env gj routes links (xs @ ys) s =
     (case process_ambulances env gj routes links xs s of
        Inl e \<Rightarrow> Inl e
      | Inr s1 \<Rightarrow> process_ambulances env gj routes links ys s1)"
  by (induction xs arbitrary: s) (auto split: sum.splits)

lemma sorted_ambulances_order:
  assumes "sorted_ambulances env = Inr (xs @ ys)" and "x \<in> set xs" and "y \<in> set ys"
  shows "priority_key x \<le> priority_key y"
proof -
  from assms(1) obtain found where "sort_key priority_key found = xs @ ys"
    by (auto simp: sorted_ambulances_def split: sum.splits)
  then have "sorted (map priority_key (xs @ ys))" by (metis sorted_sort_key)
  then show ?thesis using assms(2,3) by (auto simp: sorted_append)
qed

subsection \<open>Example arbitrations\<close>

lemma example_info:
  "a \<in> set ids \<Longrightarrow>
   get_ambulance_route_info (example_arbiter ids) a = Inr (Some ''E1'', Some ''E2'')"
  by (simp add: get_ambulance_route_info_def example_arbiter_def strip_lane_def endswith_def
      suffix_to_prefix py_get_def Let_def)

lemma example_info_absent:
  "a \<notin> set ids \<Longrightarrow> get_ambulance_route_info (example_arbiter ids) a = Inr (None, None)"
  by (simp add: get_ambulance_route_info_def example_arbiter_def)

lemmas arbiter_eval =
  route_of_def next_junction_of_def example_routes_def example_links_def link_step_def
  set_green_def direction_key_def split_underscore_0_def leads_on_def endswith_def
  startswith_def truthy_def suffix_to_prefix Let_def

lemma example_black_J2:
  "process_ambulance (example_arbiter [''ambulance_1'', ''ambulance_2'']) ''J2'' example_routes
     example_links ''ambulance_2'' (''rrrr'', {}) = Inr (''rrGr'', {(''E1'', ''yJ3'')})"
  by (simp add: process_ambulance_def example_info arbiter_eval)

lemma example_red_J2_after:
  "process_ambulance (example_arbiter [''ambulance_1'', ''ambulance_2'']) ''J2'' example_routes
     example_links ''ambulance_1'' (''rrGr'', {(''E1'', ''yJ3'')})
   = Inr (''GrGr'', {(''E1'', ''J1x''), (''E1'', ''yJ3'')})"
  by (simp add: process_ambulance_def example_info arbiter_eval)

lemma example_red_J2:
  "process_ambulance (example_arbiter [''ambulance_1'']) ''J2'' example_routes
     example_links ''ambulance_1'' (''rrrr'', {})
   = Inr (''GrGr'', {(''E1'', ''yJ3''), (''E1'', ''J1x'')})"
  by (simp add: process_ambulance_def example_info arbiter_eval)

lemma example_red_J4:
  "process_ambulance (example_arbiter [''ambulance_1'']) ''J4'' example_routes
     example_links ''ambulance_1'' (''rrrr'', {})
   = Inr (''GrGr'', {(''E1'', ''yJ3''), (''E1'', ''J1x'')})"
  by (simp add: process_ambulance_def example_info arbiter_eval)

lemma example_sorted_both:
  "sorted_ambulances (example_arbiter [''ambulance_1'', ''ambulance_2''])
     = Inr ([''ambulance_2''] @ [''ambulance_1''])"
  by (simp add: sorted_ambulances_def AMBULANCE_IDS_def example_info truthy_def
      priority_key_def AMBULANCE_PRIORITIES_def)

lemma example_sorted_one:
  "sorted_ambulances (example_arbiter [''ambulance_1'']) = Inr [''ambulance_1'']"
  by (simp add: sorted_ambulances_def AMBULANCE_IDS_def example_info example_info_absent
      truthy_def)

lemma example_signals_J2:
  "set_signals_for_ambulance True (example_arbiter [''ambulance_1'']) ''J2'' example_routes
     = Inr (setRedYellowGreenState (example_arbiter [''ambulance_1'']) ''J2'' ''GrGr'')"
proof -
  have l: "getControlledLinks (example_arbiter [''ambulance_1'']) ''J2'' = example_links"
    and r: "all_red (example_arbiter [''ambulance_1'']) ''J2'' = (''rrrr'', {})"
    by (simp_all add: example_arbiter_def all_red_def)
  show ?thesis
    by (simp add: set_signals_for_ambulance_def example_sorted_one l r example_red_J2)
qed

lemma example_signals_J4:
  "set_signals_for_ambulance True (example_arbiter [''ambulance_1'']) ''J4'' example_routes
     = Inr (setRedYellowGreenState (example_arbiter [''ambulance_1'']) ''J4'' ''GrGr'')"
proof -
  have l: "getControlledLinks (example_arbiter [''ambulance_1'']) ''J4'' = example_links"
    and r: "all_red (example_arbiter [''ambulance_1'']) ''J4'' = (''rrrr'', {})"
    by (simp_all add: example_arbiter_def all_red_def)
  show ?thesis
    by (simp add: set_signals_for_ambulance_def example_sorted_one l r example_red_J4)
qed

subsection \<open>Priority\<close>

text \<open>
  C1. With preemption enabled, split the sorted ambulances anywhere into those
  processed so far and those processed later (none of which then has a smaller
  priority key). A link whose direction is claimed after the first part keeps its
  state through the whole second part, its direction stays claimed, and that state is
  what the arbiter sends.
\<close>

theorem priority_dominance:
  assumes "sorted_ambulances env = Inr (xs @ ys)"
    and "process_ambulances env green_junction routes (getControlledLinks env green_junction)
           xs (all_red env green_junction) = Inr (state1, claimed1)"
    and "process_ambulances env green_junction routes (getControlledLinks env green_junction)
           ys (state1, claimed1) = Inr (state2, claimed2)"
    and "getControlledLinks env green_junction ! j = l # ls"
    and "direction_key l \<in> claimed1"
  shows "state2 ! j = state1 ! j \<and> direction_key l \<in> claimed2 \<and>
         (\<forall>x \<in> set xs. \<forall>y \<in> set ys. priority_key x \<le> priority_key y) \<and>
         set_signals_for_ambulance True env green_junction routes
           = Inr (setRedYellowGreenState env green_junction state2)"
proof -
  note e = process_ambulances_effect [OF assms(3)]
  have same: "state2 ! j = state1 ! j"
  proof (rule ccontr)
    assume "state2 ! j \<noteq> state1 ! j"
    with e obtain l' ls' where "getControlledLinks env green_junction ! j = l' # ls'"
      "direction_key l' \<notin> claimed1" by auto
    with assms(4,5) show False by simp
  qed
  have kept: "direction_key l \<in> claimed2" using e assms(5) by auto
  have whole: "process_ambulances env green_junction routes
      (getControlledLinks env green_junction) (xs @ ys) (all_red env green_junction)
      = Inr (state2, claimed2)"
    using assms(2,3) by (simp add: process_ambulances_append)
  have sent: "set_signals_for_ambulance True env green_junction routes
           = Inr (setRedYellowGreenState env green_junction state2)"
    using assms(1) whole by (simp add: set_signals_for_ambulance_def Let_def)
  show ?thesis using same kept sent sorted_ambulances_order [OF assms(1)] by blast
qed

theorem priority_dominance_witness:
  "sorted_ambulances (example_arbiter [''ambulance_1'', ''ambulance_2''])
     = Inr ([''ambulance_2''] @ [''ambulance_1'']) \<and>
   process_ambulances (example_arbiter [''ambulance_1'', ''ambulance_2'']) ''J2'' example_routes
     (getControlledLinks (example_arbiter [''ambulance_1'', ''ambulance_2'']) ''J2'')
     [''ambulance_2''] (all_red (example_arbiter [''ambulance_1'', ''ambulance_2'']) ''J2'')
     = Inr (''rrGr'', {(''E1'', ''yJ3'')}) \<and>
   process_ambulances (example_arbiter [''ambulance_1'', ''ambulance_2'']) ''J2'' example_routes
     (getControlledLinks (example_arbiter [''ambulance_1'', ''ambulance_2'']) ''J2'')
     [''ambulance_1''] (''rrGr'', {(''E1'', ''yJ3'')})
     = Inr (''GrGr'', {(''E1'', ''J1x''), (''E1'', ''yJ3'')}) \<and>
   getControlledLinks (example_arbiter [''ambulance_1'', ''ambulance_2'']) ''J2'' ! 2
     = (''E1_0'', ''yJ3_0'', '':c_1'') # [] \<and>
   direction_key (''E1_0'', ''yJ3_0'', '':c_1'') \<in> {(''E1'', ''yJ3'')} \<and>
   ''GrGr'' ! 2 = ''rrGr'' ! 2 \<and>
   priority_key ''ambulance_2'' \<le> priority_key ''ambulance_1'' \<and>
   set_signals_for_ambulance True (example_arbiter [''ambulance_1'', ''ambulance_2'']) ''J2''
     example_routes
     = Inr (setRedYellowGreenState (example_arbiter [''ambulance_1'', ''ambulance_2'']) ''J2''
              ''GrGr'')"
proof -
  let ?env = "example_arbiter [''ambulance_1'', ''ambulance_2'']"
  have l: "getControlledLinks ?env ''J2'' = example_links"
    and r: "all_red ?env ''J2'' = (''rrrr'', {})"
    by (simp_all add: example_arbiter_def all_red_def)
  have 1: "process_ambulances ?env ''J2'' example_routes (getControlledLinks ?env ''J2'')
      [''ambulance_2''] (all_red ?env ''J2'') = Inr (''rrGr'', {(''E1'', ''yJ3'')})"
    by (simp add: l r example_black_J2)
  have 2: "process_ambulances ?env ''J2'' example_routes (getControlledLinks ?env ''J2'')
      [''ambulance_1''] (''rrGr'', {(''E1'', ''yJ3'')})
      = Inr (''GrGr'', {(''E1'', ''J1x''), (''E1'', ''yJ3'')})"
    by (simp add: l example_red_J2_after)
  have 3: "getControlledLinks ?env ''J2'' ! 2 = (''E1_0'', ''yJ3_0'', '':c_1'') # []"
    by (simp add: l example_links_def)
  have 4: "direction_key (''E1_0'', ''yJ3_0'', '':c_1'') \<in> {(''E1'', ''yJ3'')}"
    by (simp add: direction_key_def split_underscore_0_def)
  note t = priority_dominance [OF example_sorted_both 1 2 3 4]
  from t have "priority_key ''ambulance_2'' \<le> priority_key ''ambulance_1''" by simp
  with t show ?thesis using example_sorted_both 1 2 3 4 by simp
qed

subsection \<open>A route that does not contain the junction\<close>

text \<open>
  C2 (as the code has it). An ambulance with a current and a next edge whose planned
  route does not contain the arbitrated junction has no next junction, and is treated
  as one whose route ends there: every direction from its current edge is claimed
  after it is processed, and each direction it newly claims has a link set GREEN.
\<close>

theorem route_without_junction_all_green:
  assumes "get_ambulance_route_info env a = Inr (Some ce, Some ne)"
    and "ce \<noteq> []" and "ne \<noteq> []"
    and "green_junction \<notin> set (route_of routes a)"
    and "length links \<le> length state"
  shows "\<exists>state' claimed'.
           process_ambulance env green_junction routes links a (state, claimed)
             = Inr (state', claimed') \<and>
           claimed' = claimed \<union> approach_keys ce links \<and>
           (\<forall>k. k \<in> claimed' \<and> k \<notin> claimed \<longrightarrow>
              (\<exists>j l ls. j < length links \<and> links ! j = l # ls \<and> direction_key l = k \<and>
                 state' ! j = CHR ''G''))"
proof -
  have nj: "next_junction_of (route_of routes a) green_junction = None"
    using assms(4) by (simp add: next_junction_of_def)
  then have nt: "\<not> truthy (next_junction_of (route_of routes a) green_junction)"
    by (simp add: truthy_def)
  have unfold: "process_ambulance env green_junction routes links a (state, claimed)
      = process_links ce None (route_of routes a) 0 links (state, claimed)"
    using assms(1-3) nj by (simp add: process_ambulance_def truthy_def Let_def)
  from process_links_total [of 0 links "(state, claimed)" ce None "route_of routes a"] assms(5)
  obtain s' where run: "process_links ce None (route_of routes a) 0 links (state, claimed) = Inr s'"
    by auto
  have keys: "snd s' = claimed \<union> approach_keys ce links"
    using process_links_no_target [OF _ run] by (simp add: truthy_def)
  from process_links_effect [OF run]
  have green: "\<forall>k. k \<in> snd s' \<and> k \<notin> claimed \<longrightarrow>
       (\<exists>j l ls. j < length links \<and> links ! j = l # ls \<and>
          direction_key l = k \<and> fst s' ! j = CHR ''G'')"
    by simp
  show ?thesis using unfold run keys green by (cases s') auto
qed

theorem route_without_junction_all_green_witness:
  "get_ambulance_route_info (example_arbiter [''ambulance_1'']) ''ambulance_1''
     = Inr (Some ''E1'', Some ''E2'') \<and>
   ''J4'' \<notin> set (route_of example_routes ''ambulance_1'') \<and>
   length example_links \<le> length ''rrrr'' \<and>
   process_ambulance (example_arbiter [''ambulance_1'']) ''J4'' example_routes example_links
     ''ambulance_1'' (''rrrr'', {})
     = Inr (''GrGr'', {(''E1'', ''yJ3''), (''E1'', ''J1x'')}) \<and>
   {(''E1'', ''yJ3''), (''E1'', ''J1x'')} = {} \<union> approach_keys ''E1'' example_links \<and>
   (''E1'', ''yJ3'') \<in> {(''E1'', ''yJ3''), (''E1'', ''J1x'')} \<and> (''E1'', ''yJ3'') \<notin> {}"
proof -
  have a: "get_ambulance_route_info (example_arbiter [''ambulance_1'']) ''ambulance_1''
     = Inr (Some ''E1'', Some ''E2'')" by (simp add: example_info)
  have b: "''E1'' \<noteq> []" "''E2'' \<noteq> []" by simp_all
  have c: "''J4'' \<notin> set (route_of example_routes ''ambulance_1'')"
    by (simp add: route_of_def example_routes_def)
  have d: "length example_links \<le> length ''rrrr''" by (simp add: example_links_def)
  from route_without_junction_all_green [OF a b c d, of "{}"] example_red_J4
  have e: "{(''E1'', ''yJ3''), (''E1'', ''J1x'')} = {} \<union> approach_keys ''E1'' example_links"
    by simp
  have f: "(''E1'', ''yJ3'') \<in> {(''E1'', ''yJ3''), (''E1'', ''J1x'')} \<and> (''E1'', ''yJ3'') \<notin> {}"
    by simp
  show ?thesis using a c d example_red_J4 e f by blast
qed

text \<open>
  The route of \<open>ambulance_1\<close> does not contain \<open>J4\<close>; arbitrating \<open>J4\<close> sets
  both links from its edge GREEN and claims both directions.
\<close>

theorem route_without_junction_counterexample:
  "''J4'' \<notin> set (route_of example_routes ''ambulance_1'') \<and>
   process_ambulance (example_arbiter [''ambulance_1'']) ''J4'' example_routes example_links
     ''ambulance_1'' (''rrrr'', {})
     = Inr (''GrGr'', {(''E1'', ''yJ3''), (''E1'', ''J1x'')}) \<and>
   set_signals_for_ambulance True (example_arbiter [''ambulance_1'']) ''J4'' example_routes
     = Inr (setRedYellowGreenState (example_arbiter [''ambulance_1'']) ''J4'' ''GrGr'')"
proof -
  have "''J4'' \<notin> set (route_of example_routes ''ambulance_1'')"
    by (simp add: route_of_def example_routes_def)
  then show ?thesis using example_red_J4 example_signals_J4 by simp
qed

subsection \<open>Links set GREEN when the next junction is known\<close>

text \<open>
  C7 (as the code has it). For an ambulance whose next junction after the arbitrated
  one is known, a link changes state only to GREEN, and only if it starts on the
  ambulance's current edge, its direction was unclaimed, and the name of its
  destination edge ends with the next junction or starts with any junction of the
  ambulance's whole planned route, passed junctions included.
\<close>

theorem green_only_toward_route:
  assumes "get_ambulance_route_info env a = Inr (Some ce, ne)"
    and "next_junction_of (route_of routes a) green_junction = Some target"
    and "target \<noteq> []"
    and "process_ambulance env green_junction routes links a (state, claimed)
           = Inr (state', claimed')"
    and "state' ! j \<noteq> state ! j"
  shows "state' ! j = CHR ''G'' \<and> j < length links \<and>
         (\<exists>l ls. links ! j = l # ls \<and> fst (direction_key l) = ce \<and>
            direction_key l \<notin> claimed \<and>
            (endswith (snd (direction_key l)) target \<or>
             (\<exists>jn. jn \<in> set (route_of routes a) \<and> startswith (snd (direction_key l)) jn)))"
proof -
  have tr: "truthy (Some target)" using assms(3) by (simp add: truthy_def)
  have "\<not> (\<not> truthy (Some ce) \<or> \<not> truthy ne)"
  proof
    assume "\<not> truthy (Some ce) \<or> \<not> truthy ne"
    with assms(1,4) have "state' = state" by (simp add: process_ambulance_def)
    with assms(5) show False by simp
  qed
  with assms(1,2,4) have run:
    "process_links ce (Some target) (route_of routes a) 0 links (state, claimed)
       = Inr (state', claimed')"
    by (simp add: process_ambulance_def Let_def)
  from process_links_effect [OF run] assms(5) tr
  have "state' ! j = CHR ''G''" "j < length links" and
    ex: "\<exists>l ls. links ! j = l # ls \<and> ce = fst (direction_key l) \<and>
          direction_key l \<notin> claimed \<and> leads_on (Some target) (snd (direction_key l)) (route_of routes a)"
    by auto
  moreover from ex have "\<exists>l ls. links ! j = l # ls \<and> fst (direction_key l) = ce \<and>
            direction_key l \<notin> claimed \<and>
            (endswith (snd (direction_key l)) target \<or>
             (\<exists>jn. jn \<in> set (route_of routes a) \<and> startswith (snd (direction_key l)) jn))"
    by (auto simp: leads_on_def list_ex_iff)
  ultimately show ?thesis by blast
qed

theorem green_only_toward_route_witness:
  "get_ambulance_route_info (example_arbiter [''ambulance_1'']) ''ambulance_1''
     = Inr (Some ''E1'', Some ''E2'') \<and>
   next_junction_of (route_of example_routes ''ambulance_1'') ''J2'' = Some ''J3'' \<and>
   process_ambulance (example_arbiter [''ambulance_1'']) ''J2'' example_routes example_links
     ''ambulance_1'' (''rrrr'', {})
     = Inr (''GrGr'', {(''E1'', ''yJ3''), (''E1'', ''J1x'')}) \<and>
   ''GrGr'' ! 2 \<noteq> ''rrrr'' ! 2 \<and> ''GrGr'' ! 2 = CHR ''G'' \<and> 2 < length example_links \<and>
   example_links ! 2 = (''E1_0'', ''yJ3_0'', '':c_1'') # [] \<and>
   endswith (snd (direction_key (''E1_0'', ''yJ3_0'', '':c_1''))) ''J3''"
proof -
  have a: "get_ambulance_route_info (example_arbiter [''ambulance_1'']) ''ambulance_1''
     = Inr (Some ''E1'', Some ''E2'')" by (simp add: example_info)
  have b: "next_junction_of (route_of example_routes ''ambulance_1'') ''J2'' = Some ''J3''"
    by (simp add: route_of_def example_routes_def next_junction_of_def)
  have c: "''J3'' \<noteq> []" by simp
  have d: "''GrGr'' ! 2 \<noteq> ''rrrr'' ! 2" by simp
  from green_only_toward_route [OF a b c example_red_J2 d]
  have e: "''GrGr'' ! 2 = CHR ''G''" "2 < length example_links" by simp_all
  have f: "example_links ! 2 = (''E1_0'', ''yJ3_0'', '':c_1'') # []"
    by (simp add: example_links_def)
  have g: "endswith (snd (direction_key (''E1_0'', ''yJ3_0'', '':c_1''))) ''J3''"
    by (simp add: direction_key_def split_underscore_0_def endswith_def suffix_to_prefix)
  show ?thesis using a b d e f g example_red_J2 by simp
qed

text \<open>
  \<open>ambulance_1\<close> plans \<open>J1, J2, J3\<close> and is arbitrated at \<open>J2\<close>. The link at index 0
  leads to \<open>J1x\<close>, which matches only \<open>J1\<close>, a junction already behind; it is set
  GREEN all the same.
\<close>

theorem green_toward_passed_junction_counterexample:
  "next_junction_of (route_of example_routes ''ambulance_1'') ''J2'' = Some ''J3'' \<and>
   list_index (route_of example_routes ''ambulance_1'') ''J1''
     < list_index (route_of example_routes ''ambulance_1'') ''J2'' \<and>
   example_links ! 0 = [(''E1_0'', ''J1x_0'', '':c_0'')] \<and>
   snd (direction_key (''E1_0'', ''J1x_0'', '':c_0'')) = ''J1x'' \<and>
   startswith ''J1x'' ''J1'' \<and>
   \<not> spec_leads_toward_remaining (route_of example_routes ''ambulance_1'') ''J2'' ''J1x'' \<and>
   set_signals_for_ambulance True (example_arbiter [''ambulance_1'']) ''J2'' example_routes
     = Inr (setRedYellowGreenState (example_arbiter [''ambulance_1'']) ''J2'' ''GrGr'') \<and>
   ''GrGr'' ! 0 = CHR ''G''"
proof -
  have "next_junction_of (route_of example_routes ''ambulance_1'') ''J2'' = Some ''J3''"
    by (simp add: route_of_def example_routes_def next_junction_of_def)
  moreover have "list_index (route_of example_routes ''ambulance_1'') ''J1''
     < list_index (route_of example_routes ''ambulance_1'') ''J2''"
    by (simp add: route_of_def example_routes_def)
  moreover have "example_links ! 0 = [(''E1_0'', ''J1x_0'', '':c_0'')]"
    by (simp add: example_links_def)
  moreover have "snd (direction_key (''E1_0'', ''J1x_0'', '':c_0'')) = ''J1x''"
    by (simp add: direction_key_def split_underscore_0_def)
  moreover have "startswith ''J1x'' ''J1''" by (simp add: startswith_def)
  moreover have "\<not> spec_leads_toward_remaining (route_of example_routes ''ambulance_1'') ''J2'' ''J1x''"
    by (simp add: spec_leads_toward_remaining_def route_of_def example_routes_def
        next_junction_of_def endswith_def startswith_def suffix_to_prefix)
  ultimately show ?thesis using example_signals_J2 by simp
qed

subsection \<open>Preemption disabled\<close>

text \<open>
  C9. With preemption disabled the arbiter returns at once, whatever the junction,
  the vehicles and the routes: the simulator is as before, so no signal state was
  sent and no signal state changed.
\<close>

theorem preemption_disabled_unmanaged:
  "set_signals_for_ambulance False env green_junction routes = Inr env"
  by (simp add: set_signals_for_ambulance_def)

section \<open>Start and end times\<close>

text \<open>
  C6. An ambulance present at times 10 and 25 and gone at time 26, with no other
  ambulance present, gets its start time but never an end time, and stays in
  \<open>active_ambulances\<close>: the loop that records end times runs only while some
  ambulance is present. When another ambulance is still present at time 26, the end
  time 26 is recorded.
\<close>

theorem last_ambulance_never_finished:
  "AMBULANCE_START_TIMES
     (run_simulation [(10, [''ambulance_1'']), (25, [''ambulance_1'']), (26, [])])
     ''ambulance_1'' = Some 10 \<and>
   AMBULANCE_END_TIMES
     (run_simulation [(10, [''ambulance_1'']), (25, [''ambulance_1'']), (26, [])])
     ''ambulance_1'' = None \<and>
   active_ambulances
     (run_simulation [(10, [''ambulance_1'']), (25, [''ambulance_1'']), (26, [])])
     = [''ambulance_1''] \<and>
   AMBULANCE_END_TIMES
     (run_simulation [(10, [''ambulance_1'', ''ambulance_2'']), (25, [''ambulance_1'', ''ambulance_2'']),
                      (26, [''ambulance_2''])])
     ''ambulance_1'' = Some 26"
  by (simp add: run_simulation_def tick_def tracker_init_def AMBULANCE_IDS_def Let_def)

end
